theory Spec2Isabelle
  imports Main "HOL-Library.AList"
begin

section \<open>Machine arithmetic used by ILfuCache.h\<close>

text \<open>
  The counters of the cache are C++ \<open>int\<close>s. They are modelled as mathematical integers:
  signed overflow is undefined behaviour in C++ and needs more than \<open>2^31\<close> accesses, so the
  model describes the executions that stay below it. The mixed \<open>int\<close>/\<open>size_t\<close>
  division of the source is written out: the \<open>int\<close> operand is converted to the 64-bit
  unsigned type first, and the \<open>size_t\<close> result stored in an \<open>int\<close> is reduced to 32 bits.
\<close>

definition INT8_MAX :: int where
  "INT8_MAX = 127"

definition to_size_t :: "int \<Rightarrow> int" where
  "to_size_t i = i mod 2 ^ 64"

definition to_int :: "int \<Rightarrow> int" where
  "to_int u = (let r = u mod 2 ^ 32 in if r < 2 ^ 31 then r else r - 2 ^ 32)"

text \<open>\<open>curTotalNum_ / nodeMap_.size()\<close>, stored in the \<open>int\<close> \<open>curAverageNum_\<close>.\<close>

definition average :: "int \<Rightarrow> nat \<Rightarrow> int" where
  "average t n = to_int (to_size_t t div int n)"

text \<open>Division of two \<open>int\<close>s truncates towards zero (\<open>maxAverageNum_ / 2\<close>).\<close>

definition int_div :: "int \<Rightarrow> int \<Rightarrow> int" where
  "int_div a b = sgn a * sgn b * (\<bar>a\<bar> div \<bar>b\<bar>)"

section \<open>Nodes and frequency lists\<close>

text \<open>
  A \<open>Node\<close> carries \<open>freq\<close>, \<open>key\<close> and \<open>value\<close>; its \<open>pre\<close>/\<open>next\<close> links are
  represented by its position in the sequence of its list. Nodes live in a heap (a list,
  addressed by index; \<open>make_shared\<close> allocates at the end), so that the index, the frequency
  lists and local variables can share one node, as the \<open>shared_ptr\<close>s of the source do.

  A \<open>FreqList\<close> is the sequence of nodes linked between the sentinels \<open>head_\<close> and
  \<open>tail_\<close>, first node first. Both sentinels are built by \<open>Node()\<close>: \<open>freq = 1\<close>, a
  default-constructed key, and \<open>tail_->next = nullptr\<close>.
\<close>

record ('k, 'v) Node =
  freq :: int
  key :: 'k
  val :: 'v

type_synonym FreqList = "nat list"

definition isEmpty :: "FreqList \<Rightarrow> bool" where
  "isEmpty b \<longleftrightarrow> b = []"

text \<open>\<open>addNode\<close> links the node in front of \<open>tail_\<close>.\<close>

definition addNode :: "nat \<Rightarrow> FreqList \<Rightarrow> FreqList" where
  "addNode n b = b @ [n]"

text \<open>
  \<open>removeNode\<close> splices the node out of the sequence it is linked in; a node that is not
  linked (\<open>next == nullptr\<close>) is left alone.
\<close>

definition removeNode :: "nat \<Rightarrow> FreqList \<Rightarrow> FreqList" where
  "removeNode n b = removeAll n b"

text \<open>
  \<open>getFirstNode\<close> returns \<open>head_->next\<close>: the first linked node, or the sentinel \<open>tail_\<close>
  (here \<open>None\<close>) when the list is empty.
\<close>

definition getFirstNode :: "FreqList \<Rightarrow> nat option" where
  "getFirstNode b = (case b of [] \<Rightarrow> None | n # _ \<Rightarrow> Some n)"

section \<open>ILfuCache\<close>

text \<open>
  \<open>nodeMap_\<close> and \<open>freqToFreqList_\<close> are association lists with distinct keys, kept in
  the order of insertion; the iteration order of \<open>std::unordered_map\<close> is unspecified (see
  \<open>agingLoop\<close> for the one walk whose order matters). An operation returns \<open>None\<close> where
  the source dereferences a null \<open>FreqList*\<close> (\<open>freqToFreqList_[f]\<close> for a frequency that
  has no list).
\<close>

record ('k, 'v) ILfuCache =
  capacity :: int
  minFreq :: int
  maxAverageNum :: int
  curAverageNum :: int
  curTotalNum :: int
  nodeMap :: "('k \<times> nat) list"
  freqToFreqList :: "(int \<times> FreqList) list"
  heap :: "('k, 'v) Node list"

definition ILfuCache_new :: "int \<Rightarrow> int \<Rightarrow> ('k, 'v) ILfuCache" where
  "ILfuCache_new c m =
     \<lparr>capacity = c, minFreq = INT8_MAX, maxAverageNum = m, curAverageNum = 0,
      curTotalNum = 0, nodeMap = [], freqToFreqList = [], heap = []\<rparr>"

definition nodeFreq :: "('k, 'v) ILfuCache \<Rightarrow> nat \<Rightarrow> int" where
  "nodeFreq s n = freq (heap s ! n)"

definition setFreq :: "nat \<Rightarrow> int \<Rightarrow> ('k, 'v) ILfuCache \<Rightarrow> ('k, 'v) ILfuCache" where
  "setFreq n f s = s\<lparr>heap := (heap s)[n := (heap s ! n)\<lparr>freq := f\<rparr>]\<rparr>"

definition setVal :: "nat \<Rightarrow> 'v \<Rightarrow> ('k, 'v) ILfuCache \<Rightarrow> ('k, 'v) ILfuCache" where
  "setVal n v s = s\<lparr>heap := (heap s)[n := (heap s ! n)\<lparr>val := v\<rparr>]\<rparr>"

text \<open>
  \<open>removeFromFreqList\<close> calls \<open>freqToFreqList_[freq]->removeNode(node)\<close>. The list of the
  node's frequency must exist; the splice itself works on the node's own neighbours, in
  whichever list they are.
\<close>

definition removeFromFreqList ::
  "nat \<Rightarrow> ('k, 'v) ILfuCache \<Rightarrow> ('k, 'v) ILfuCache option" where
  "removeFromFreqList n s =
     (case map_of (freqToFreqList s) (nodeFreq s n) of
        None \<Rightarrow> None
      | Some _ \<Rightarrow>
          Some (s\<lparr>freqToFreqList := map (\<lambda>(f, b). (f, removeNode n b)) (freqToFreqList s)\<rparr>))"

definition addToFreqList :: "nat \<Rightarrow> ('k, 'v) ILfuCache \<Rightarrow> ('k, 'v) ILfuCache" where
  "addToFreqList n s =
     (let f = nodeFreq s n in
      case map_of (freqToFreqList s) f of
        None \<Rightarrow> s\<lparr>freqToFreqList := AList.update f (addNode n []) (freqToFreqList s)\<rparr>
      | Some b \<Rightarrow> s\<lparr>freqToFreqList := AList.update f (addNode n b) (freqToFreqList s)\<rparr>)"

definition updateMinFreq :: "('k, 'v) ILfuCache \<Rightarrow> ('k, 'v) ILfuCache" where
  "updateMinFreq s =
     (let m = fold (\<lambda>(f, b) m. if \<not> isEmpty b then min m f else m) (freqToFreqList s) INT8_MAX
      in s\<lparr>minFreq := (if m = INT8_MAX then 1 else m)\<rparr>)"

text \<open>
  The loop of \<open>handleOverMaxAverageNum\<close> over the nodes of \<open>nodeMap_\<close>, for a given order
  of the walk. The source walks in the order of \<open>std::unordered_map\<close>, which the language
  leaves open. \<open>handleOverMaxAverageNum\<close> below walks from the newest entry to the oldest,
  as the usual implementation does on a small map; what is proved of the pass is proved of
  \<open>agingLoop\<close> for every order of the live nodes.
\<close>

fun agingLoop :: "nat list \<Rightarrow> ('k, 'v) ILfuCache \<Rightarrow> ('k, 'v) ILfuCache option" where
  "agingLoop [] s = Some s"
| "agingLoop (n # ns) s =
     (case removeFromFreqList n s of
        None \<Rightarrow> None
      | Some s1 \<Rightarrow>
          (let f = nodeFreq s1 n - int_div (maxAverageNum s1) 2;
               s2 = setFreq n (if f < 1 then 1 else f) s1
           in agingLoop ns (addToFreqList n s2)))"

definition handleOverMaxAverageNum :: "('k, 'v) ILfuCache \<Rightarrow> ('k, 'v) ILfuCache option" where
  "handleOverMaxAverageNum s =
     (if nodeMap s = [] then Some s
      else map_option updateMinFreq (agingLoop (rev (map snd (nodeMap s))) s))"

text \<open>
  \<open>addFreqNum\<close> and \<open>decreaseFreqNum\<close> end with the same statement, the recomputation of
  \<open>curAverageNum_\<close> from the total and the size of the index.
\<close>

definition recomputeAverage :: "('k, 'v) ILfuCache \<Rightarrow> ('k, 'v) ILfuCache" where
  "recomputeAverage s =
     s\<lparr>curAverageNum :=
         (if nodeMap s = [] then 0 else average (curTotalNum s) (length (nodeMap s)))\<rparr>"

definition addFreqNum :: "('k, 'v) ILfuCache \<Rightarrow> ('k, 'v) ILfuCache option" where
  "addFreqNum s =
     (let s1 = recomputeAverage (s\<lparr>curTotalNum := curTotalNum s + 1\<rparr>)
      in if curAverageNum s1 > maxAverageNum s1 then handleOverMaxAverageNum s1 else Some s1)"

definition decreaseFreqNum :: "int \<Rightarrow> ('k, 'v) ILfuCache \<Rightarrow> ('k, 'v) ILfuCache" where
  "decreaseFreqNum num s = recomputeAverage (s\<lparr>curTotalNum := curTotalNum s - num\<rparr>)"

text \<open>
  \<open>kickOut\<close> takes \<open>freqToFreqList_[minFreq_]->getFirstNode()\<close>. On an empty list that is
  the sentinel \<open>tail_\<close>: \<open>removeFromFreqList\<close> then looks up the list of frequency 1 and
  \<open>removeNode\<close> returns at once (\<open>tail_->next\<close> is null), \<open>nodeMap_.erase\<close> is called with
  the sentinel's default-constructed key, and 1 is subtracted from the total.
\<close>

definition kickOut :: "('k::default, 'v) ILfuCache \<Rightarrow> ('k, 'v) ILfuCache option" where
  "kickOut s =
     (case map_of (freqToFreqList s) (minFreq s) of
        None \<Rightarrow> None
      | Some b \<Rightarrow>
          (case getFirstNode b of
             None \<Rightarrow>
               (case map_of (freqToFreqList s) 1 of
                  None \<Rightarrow> None
                | Some _ \<Rightarrow>
                    Some (decreaseFreqNum 1 (s\<lparr>nodeMap := AList.delete default (nodeMap s)\<rparr>)))
           | Some n \<Rightarrow>
               (case removeFromFreqList n s of
                  None \<Rightarrow> None
                | Some s1 \<Rightarrow>
                    Some (decreaseFreqNum (nodeFreq s1 n)
                            (s1\<lparr>nodeMap := AList.delete (key (heap s1 ! n)) (nodeMap s1)\<rparr>)))))"

definition getInternal ::
  "nat \<Rightarrow> ('k, 'v) ILfuCache \<Rightarrow> ('v \<times> ('k, 'v) ILfuCache) option" where
  "getInternal n s =
     (let v = val (heap s ! n) in
      case removeFromFreqList n s of
        None \<Rightarrow> None
      | Some s1 \<Rightarrow>
          (let s2 = addToFreqList n (setFreq n (nodeFreq s1 n + 1) s1) in
           (if nodeFreq s2 n - 1 = minFreq s2 then
              (case map_of (freqToFreqList s2) (nodeFreq s2 n - 1) of
                 None \<Rightarrow> None
               | Some b \<Rightarrow>
                   map_option (Pair v)
                     (addFreqNum (if isEmpty b then s2\<lparr>minFreq := minFreq s2 + 1\<rparr> else s2)))
            else map_option (Pair v) (addFreqNum s2))))"

text \<open>
  \<open>nodeMap_.size() == capacity_\<close> compares a \<open>size_t\<close> with an \<open>int\<close>: the capacity is
  converted to the unsigned type, where a negative one becomes a value of at least
  \<open>2^64 - 2^31\<close>, which no size reaches. So the test holds exactly when the capacity is
  not negative and equals the number of entries.
\<close>

definition atCapacity :: "('k, 'v) ILfuCache \<Rightarrow> bool" where
  "atCapacity s \<longleftrightarrow> 0 \<le> capacity s \<and> int (length (nodeMap s)) = capacity s"

definition putInternal ::
  "'k \<Rightarrow> 'v \<Rightarrow> ('k::default, 'v) ILfuCache \<Rightarrow> ('k, 'v) ILfuCache option" where
  "putInternal k v s =
     (case (if atCapacity s then kickOut s else Some s) of
        None \<Rightarrow> None
      | Some s1 \<Rightarrow>
          (let n = length (heap s1);
               s2 = s1\<lparr>heap := heap s1 @ [\<lparr>freq = 1, key = k, val = v\<rparr>],
                       nodeMap := AList.update k n (nodeMap s1)\<rparr>
           in map_option (\<lambda>s3. s3\<lparr>minFreq := min (minFreq s3) 1\<rparr>)
                (addFreqNum (addToFreqList n s2))))"

definition put :: "'k \<Rightarrow> 'v \<Rightarrow> ('k::default, 'v) ILfuCache \<Rightarrow> ('k, 'v) ILfuCache option" where
  "put k v s =
     (if capacity s = 0 then Some s
      else case map_of (nodeMap s) k of
             Some n \<Rightarrow> map_option snd (getInternal n (setVal n v s))
           | None \<Rightarrow> putInternal k v s)"

text \<open>
  \<open>bool get(Key, Value&)\<close>: the second argument is the content of the caller's variable
  before the call; the result is the flag, the content after the call and the new state.
\<close>

definition get ::
  "'k \<Rightarrow> 'v \<Rightarrow> ('k, 'v) ILfuCache \<Rightarrow> (bool \<times> 'v \<times> ('k, 'v) ILfuCache) option" where
  "get k v0 s =
     (case map_of (nodeMap s) k of
        Some n \<Rightarrow> map_option (\<lambda>(v, s'). (True, v, s')) (getInternal n s)
      | None \<Rightarrow> Some (False, v0, s))"

text \<open>
  \<open>Value get(Key)\<close>, the convenience form: it declares \<open>Value value;\<close>, calls
  \<open>get(key, value)\<close> and returns \<open>value\<close>. The local is default-initialised: for a class
  type that runs the default constructor, for a scalar type it leaves the variable
  uninitialised. The argument \<open>u\<close> is the content of the local when \<open>get(key, value)\<close> is
  called.
\<close>

definition get_value ::
  "'k \<Rightarrow> 'v \<Rightarrow> ('k, 'v) ILfuCache \<Rightarrow> ('v \<times> ('k, 'v) ILfuCache) option" where
  "get_value k u s = map_option (\<lambda>(b, v, s'). (v, s')) (get k u s)"

definition purge :: "('k, 'v) ILfuCache \<Rightarrow> ('k, 'v) ILfuCache" where
  "purge s = s\<lparr>nodeMap := [], freqToFreqList := []\<rparr>"

section \<open>Sequences of operations\<close>

text \<open>
  The public operations of \<open>ILfuCache\<close>, and the state after a sequence of completed calls;
  \<open>Get k v0\<close> is \<open>get(k, value)\<close> on a variable holding \<open>v0\<close>.
\<close>

datatype ('k, 'v) operation = Put 'k 'v | Get 'k 'v | Purge

fun step :: "('k::default, 'v) operation \<Rightarrow> ('k, 'v) ILfuCache \<Rightarrow> ('k, 'v) ILfuCache option" where
  "step (Put k v) s = put k v s"
| "step (Get k v0) s = map_option (\<lambda>(b, v, s'). s') (get k v0 s)"
| "step Purge s = Some (purge s)"

fun run :: "('k::default, 'v) operation list \<Rightarrow> ('k, 'v) ILfuCache \<Rightarrow> ('k, 'v) ILfuCache option" where
  "run [] s = Some s"
| "run (x # xs) s = (case step x s of None \<Rightarrow> None | Some s' \<Rightarrow> run xs s')"

text \<open>
  The concrete runs below use keys of type \<open>nat\<close>, where 0 stands for the
  default-constructed key that the sentinels of a list carry.
\<close>

instantiation nat :: default
begin

definition default_nat :: nat where
  "default_nat = 0"

instance ..

end

section \<open>KHashLfuCache\<close>

text \<open>
  The sharded cache: \<open>sliceNum_\<close> (positive after construction, unless the hardware
  concurrency hint is 0), \<open>capacity_\<close> and the vector of slices. \<open>std::hash<Key>\<close> is a
  parameter \<open>hash\<close> of the operations. An operation returns \<open>None\<close> where the source would
  compute a remainder by zero or index the vector out of range.
\<close>

record ('k, 'v) KHashLfuCache =
  sliceNum :: nat
  kcapacity :: nat
  lfuSliceCaches :: "('k, 'v) ILfuCache list"

definition KHash_put ::
  "('k \<Rightarrow> nat) \<Rightarrow> 'k \<Rightarrow> 'v \<Rightarrow> ('k::default, 'v) KHashLfuCache \<Rightarrow> ('k, 'v) KHashLfuCache option" where
  "KHash_put hash k v h =
     (let sliceIndex = hash k mod sliceNum h in
      if sliceNum h = 0 \<or> length (lfuSliceCaches h) \<le> sliceIndex then None
      else map_option (\<lambda>s'. h\<lparr>lfuSliceCaches := (lfuSliceCaches h)[sliceIndex := s']\<rparr>)
             (put k v (lfuSliceCaches h ! sliceIndex)))"

definition KHash_get ::
  "('k \<Rightarrow> nat) \<Rightarrow> 'k \<Rightarrow> 'v \<Rightarrow> ('k, 'v) KHashLfuCache \<Rightarrow>
     (bool \<times> 'v \<times> ('k, 'v) KHashLfuCache) option" where
  "KHash_get hash k v0 h =
     (let sliceIndex = hash k mod sliceNum h in
      if sliceNum h = 0 \<or> length (lfuSliceCaches h) \<le> sliceIndex then None
      else map_option
             (\<lambda>(b, v, s'). (b, v, h\<lparr>lfuSliceCaches := (lfuSliceCaches h)[sliceIndex := s']\<rparr>))
             (get k v0 (lfuSliceCaches h ! sliceIndex)))"

definition KHash_purge :: "('k, 'v) KHashLfuCache \<Rightarrow> ('k, 'v) KHashLfuCache" where
  "KHash_purge h = h\<lparr>lfuSliceCaches := map purge (lfuSliceCaches h)\<rparr>"

text \<open>The states of an \<open>ILfuCache\<close> after some sequence of completed operations.\<close>

definition reachable :: "('k::default, 'v) ILfuCache \<Rightarrow> bool" where
  "reachable s \<longleftrightarrow> (\<exists>xs c m. run xs (ILfuCache_new c m) = Some s)"

section \<open>Well-formed states\<close>

text \<open>
  \<open>inv0\<close> is the structure that every operation keeps, also between the steps of one
  operation: the index has distinct keys and distinct nodes; an indexed node is allocated,
  carries its key, and is linked in the list of its frequency; a list holds each node once,
  only allocated nodes of its own frequency, and its frequency is at least 1; every node has
  frequency at least 1; and the list of frequency 1 exists while the index is not empty.
  \<open>minOK\<close> says that \<open>minFreq_\<close> names an allocated list while the index is not empty, and
  \<open>inv\<close> adds what holds between operations.
\<close>

definition inv0 :: "('k, 'v) ILfuCache \<Rightarrow> bool" where
  "inv0 s \<longleftrightarrow>
     distinct (map fst (nodeMap s)) \<and>
     distinct (map snd (nodeMap s)) \<and>
     (\<forall>k n. (k, n) \<in> set (nodeMap s) \<longrightarrow>
        n < length (heap s) \<and> key (heap s ! n) = k \<and>
        (\<exists>b. map_of (freqToFreqList s) (nodeFreq s n) = Some b \<and> n \<in> set b)) \<and>
     (\<forall>f b. map_of (freqToFreqList s) f = Some b \<longrightarrow>
        1 \<le> f \<and> distinct b \<and> (\<forall>n \<in> set b. n < length (heap s) \<and> nodeFreq s n = f)) \<and>
     (\<forall>n < length (heap s). 1 \<le> nodeFreq s n) \<and>
     (nodeMap s \<noteq> [] \<longrightarrow> map_of (freqToFreqList s) 1 \<noteq> None)"

definition minOK :: "('k, 'v) ILfuCache \<Rightarrow> bool" where
  "minOK s \<longleftrightarrow> (nodeMap s \<noteq> [] \<longrightarrow> map_of (freqToFreqList s) (minFreq s) \<noteq> None)"

definition inv :: "('k, 'v) ILfuCache \<Rightarrow> bool" where
  "inv s \<longleftrightarrow> inv0 s \<and> 1 \<le> minFreq s \<and> minOK s \<and> (capacity s = 0 \<longrightarrow> nodeMap s = [])"

text \<open>Two states hold the same entries: index, keys, values and configuration agree.\<close>

definition sameEntries :: "('k, 'v) ILfuCache \<Rightarrow> ('k, 'v) ILfuCache \<Rightarrow> bool" where
  "sameEntries s s' \<longleftrightarrow>
     nodeMap s' = nodeMap s \<and> length (heap s') = length (heap s) \<and>
     capacity s' = capacity s \<and> maxAverageNum s' = maxAverageNum s \<and>
     (\<forall>n. val (heap s' ! n) = val (heap s ! n) \<and> key (heap s' ! n) = key (heap s ! n))"

text \<open>
  The test \<open>curAverageNum_ > maxAverageNum_\<close> of \<open>addFreqNum\<close>, on the state before the
  call: the average is recomputed from the incremented total.
\<close>

definition agingDue :: "('k, 'v) ILfuCache \<Rightarrow> bool" where
  "agingDue s \<longleftrightarrow>
     maxAverageNum s <
       (if nodeMap s = [] then 0 else average (curTotalNum s + 1) (length (nodeMap s)))"

section \<open>What the specification says of an access and of the aging pass\<close>

text \<open>
  A node is linked exactly once: it is in the list of its frequency, in no other list, and
  no list holds a node twice.
\<close>

definition linkedOnce :: "('k, 'v) ILfuCache \<Rightarrow> nat \<Rightarrow> bool" where
  "linkedOnce s n \<longleftrightarrow>
     (\<exists>b. map_of (freqToFreqList s) (nodeFreq s n) = Some b \<and> n \<in> set b) \<and>
     (\<forall>f b. map_of (freqToFreqList s) f = Some b \<longrightarrow>
        distinct b \<and> (n \<in> set b \<longrightarrow> f = nodeFreq s n))"

text \<open>
  \<open>aged s s'\<close>: \<open>s'\<close> is \<open>s\<close> after an aging pass, as the specification describes it. No key
  is removed; every live entry has its frequency lowered by \<open>maxAverageNum_ / 2\<close>, but not
  below 1, keeps its value, and is linked exactly once, in the list of its new frequency; a
  \<open>get\<close> of any key returns the same flag and value in \<open>s'\<close> as in \<open>s\<close>; and, with
  \<open>maxAverageNum_\<close> at least 1, an entry of frequency 1 stays at frequency 1 and
  \<open>minFreq_\<close> is 1, so that the next eviction takes its victim from the list that holds it.
\<close>

definition aged :: "('k, 'v) ILfuCache \<Rightarrow> ('k, 'v) ILfuCache \<Rightarrow> bool" where
  "aged s s' \<longleftrightarrow>
     nodeMap s' = nodeMap s \<and>
     (\<forall>k n. (k, n) \<in> set (nodeMap s) \<longrightarrow>
        nodeFreq s' n = max 1 (nodeFreq s n - int_div (maxAverageNum s) 2) \<and>
        val (heap s' ! n) = val (heap s ! n) \<and>
        linkedOnce s' n) \<and>
     (\<forall>k v0. get k v0 s \<noteq> None \<and>
        map_option (\<lambda>(b, v, r). (b, v)) (get k v0 s') =
        map_option (\<lambda>(b, v, r). (b, v)) (get k v0 s)) \<and>
     (1 \<le> maxAverageNum s \<longrightarrow>
        (\<forall>k n. (k, n) \<in> set (nodeMap s) \<and> nodeFreq s n = 1 \<longrightarrow>
           nodeFreq s' n = 1 \<and> minFreq s' = 1))"

text \<open>
  \<open>accessed k s s'\<close>: \<open>s'\<close> holds the frequencies that an access to \<open>k\<close> in \<open>s\<close> (a successful
  \<open>get\<close>, or a \<open>put\<close>, which inserts \<open>k\<close> when it is absent) must leave. The running average
  is the running total over the number of live entries. Every live entry of \<open>s'\<close> is linked
  exactly once, and its frequency is the one it has in \<open>s\<close>, plus 1 for \<open>k\<close>, or 1 for an
  entry that \<open>s\<close> does not hold; if the running average of \<open>s'\<close> exceeds \<open>maxAverageNum_\<close>,
  that frequency is lowered by \<open>maxAverageNum_ / 2\<close>, but not below 1.
\<close>

definition accessed :: "'k \<Rightarrow> ('k, 'v) ILfuCache \<Rightarrow> ('k, 'v) ILfuCache \<Rightarrow> bool" where
  "accessed k s s' \<longleftrightarrow>
     curAverageNum s' = average (curTotalNum s') (length (nodeMap s')) \<and>
     (\<forall>k' n. (k', n) \<in> set (nodeMap s') \<longrightarrow>
        linkedOnce s' n \<and>
        nodeFreq s' n =
          (let f = (if (k', n) \<in> set (nodeMap s)
                    then nodeFreq s n + (if k' = k then 1 else 0) else 1)
           in if maxAverageNum s' < curAverageNum s'
              then max 1 (f - int_div (maxAverageNum s') 2) else f))"

section \<open>Quantities named by the specification\<close>

text \<open>The sum of the frequency counts of all live entries.\<close>

definition liveFreqSum :: "('k, 'v) ILfuCache \<Rightarrow> int" where
  "liveFreqSum s = sum_list (map (\<lambda>(k, n). nodeFreq s n) (nodeMap s))"

text \<open>The smallest frequency whose list is not empty, if there is one.\<close>

definition minNonEmptyFreq :: "('k, 'v) ILfuCache \<Rightarrow> int option" where
  "minNonEmptyFreq s =
     (case filter (\<lambda>(f, b). \<not> isEmpty b) (freqToFreqList s) of
        [] \<Rightarrow> None
      | x # xs \<Rightarrow> Some (fold min (map fst xs) (fst x)))"

text \<open>
  The state of a cache of capacity 1 with \<open>maxAverageNum = 1\<close> after \<open>put(1, 1)\<close> and 126
  calls of \<open>get(1)\<close> (see \<open>run_aged\<close> below).
\<close>

definition agedCache :: "(nat, int) ILfuCache" where
  "agedCache =
     \<lparr>capacity = 1, minFreq = 1, maxAverageNum = 1, curAverageNum = 127, curTotalNum = 127,
      nodeMap = [(1, 0)],
      freqToFreqList = map (\<lambda>f. (f, [])) [1..126] @ [(127, [0])],
      heap = [\<lparr>freq = 127, key = 1, val = 1\<rparr>]\<rparr>"

section \<open>Example states\<close>

text \<open>
  States reached by short runs, used to instantiate the theorems below: after
  \<open>put(1, 1)\<close> on a cache of capacity 1; after \<open>put(1, 1)\<close>, \<open>put(2, 2)\<close> on a cache of
  capacity 2; after \<open>put(1, 10)\<close>, \<open>put(2, 20)\<close> and three \<open>get(1)\<close> with
  \<open>maxAverageNum = 2\<close>, where the next access raises the average to 3; after \<open>put(1, 1)\<close>, \<open>put(1, 2)\<close> with \<open>maxAverageNum = 2\<close>; and a
  sharded cache of two empty slices of capacity 1.
\<close>

definition cacheOneEntry :: "(nat, int) ILfuCache" where
  "cacheOneEntry =
     \<lparr>capacity = 1, minFreq = 1, maxAverageNum = 10, curAverageNum = 1, curTotalNum = 1,
      nodeMap = [(1, 0)], freqToFreqList = [(1, [0])],
      heap = [\<lparr>freq = 1, key = 1, val = 1\<rparr>]\<rparr>"

definition cacheTwoEntries :: "(nat, int) ILfuCache" where
  "cacheTwoEntries =
     \<lparr>capacity = 2, minFreq = 1, maxAverageNum = 10, curAverageNum = 1, curTotalNum = 2,
      nodeMap = [(1, 0), (2, 1)], freqToFreqList = [(1, [0, 1])],
      heap = [\<lparr>freq = 1, key = 1, val = 1\<rparr>, \<lparr>freq = 1, key = 2, val = 2\<rparr>]\<rparr>"

definition cacheBeforeAging :: "(nat, int) ILfuCache" where
  "cacheBeforeAging =
     \<lparr>capacity = 2, minFreq = 1, maxAverageNum = 2, curAverageNum = 2, curTotalNum = 5,
      nodeMap = [(1, 0), (2, 1)], freqToFreqList = [(1, [1]), (2, []), (3, []), (4, [0])],
      heap = [\<lparr>freq = 4, key = 1, val = 10\<rparr>, \<lparr>freq = 1, key = 2, val = 20\<rparr>]\<rparr>"

definition cacheTwoPuts :: "(nat, int) ILfuCache" where
  "cacheTwoPuts =
     \<lparr>capacity = 1, minFreq = 2, maxAverageNum = 2, curAverageNum = 2, curTotalNum = 2,
      nodeMap = [(1, 0)], freqToFreqList = [(1, []), (2, [0])],
      heap = [\<lparr>freq = 2, key = 1, val = 2\<rparr>]\<rparr>"

definition shardedExample :: "(nat, int) KHashLfuCache" where
  "shardedExample =
     \<lparr>sliceNum = 2, kcapacity = 2,
      lfuSliceCaches = [ILfuCache_new 1 10, ILfuCache_new 1 10]\<rparr>"

lemma sameEntries_refl [simp]: "sameEntries s s"
  by (simp add: sameEntries_def)

lemma sameEntries_trans: "sameEntries s s' \<Longrightarrow> sameEntries s' s'' \<Longrightarrow> sameEntries s s''"
  by (simp add: sameEntries_def)

lemma inv0_cong:
  assumes "nodeMap s' = nodeMap s" "freqToFreqList s' = freqToFreqList s"
    "length (heap s') = length (heap s)" "\<And>n. nodeFreq s' n = nodeFreq s n"
    "\<And>n. key (heap s' ! n) = key (heap s ! n)"
  shows "inv0 s' = inv0 s"
  by (simp add: inv0_def assms)

lemma removeFromFreqList_Some:
  "removeFromFreqList n s = Some s1 \<longleftrightarrow>
     map_of (freqToFreqList s) (nodeFreq s n) \<noteq> None \<and>
     s1 = s\<lparr>freqToFreqList := map (\<lambda>(f, b). (f, removeNode n b)) (freqToFreqList s)\<rparr>"
  by (auto simp: removeFromFreqList_def split: option.splits)

lemma map_of_removeNode:
  "map_of (map (\<lambda>(f, b). (f, removeNode n b)) al) f = map_option (removeNode n) (map_of al f)"
  by (induction al) auto

lemma addToFreqList_fields [simp]:
  "nodeMap (addToFreqList n s) = nodeMap s"
  "heap (addToFreqList n s) = heap s"
  "capacity (addToFreqList n s) = capacity s"
  "minFreq (addToFreqList n s) = minFreq s"
  "maxAverageNum (addToFreqList n s) = maxAverageNum s"
  "curAverageNum (addToFreqList n s) = curAverageNum s"
  "curTotalNum (addToFreqList n s) = curTotalNum s"
  by (simp_all add: addToFreqList_def Let_def split: option.splits)

lemma nodeFreq_addToFreqList [simp]: "nodeFreq (addToFreqList n s) m = nodeFreq s m"
  by (simp add: nodeFreq_def)

lemma map_of_addToFreqList:
  "map_of (freqToFreqList (addToFreqList n s)) f =
     (if f = nodeFreq s n
      then Some (case map_of (freqToFreqList s) f of None \<Rightarrow> [n] | Some b \<Rightarrow> b @ [n])
      else map_of (freqToFreqList s) f)"
  by (simp add: addToFreqList_def Let_def addNode_def update_conv' split: option.splits)

lemma setFreq_fields [simp]:
  "nodeMap (setFreq n f s) = nodeMap s"
  "freqToFreqList (setFreq n f s) = freqToFreqList s"
  "capacity (setFreq n f s) = capacity s"
  "minFreq (setFreq n f s) = minFreq s"
  "maxAverageNum (setFreq n f s) = maxAverageNum s"
  "curAverageNum (setFreq n f s) = curAverageNum s"
  "curTotalNum (setFreq n f s) = curTotalNum s"
  "length (heap (setFreq n f s)) = length (heap s)"
  by (simp_all add: setFreq_def)

lemma nodeFreq_setFreq:
  "nodeFreq (setFreq n f s) m = (if m = n \<and> n < length (heap s) then f else nodeFreq s m)"
proof (cases "n < length (heap s)")
  case True
  then show ?thesis by (simp add: nodeFreq_def setFreq_def nth_list_update)
next
  case False
  then show ?thesis by (simp add: nodeFreq_def setFreq_def list_update_beyond)
qed

lemma nodeFreq_freqToFreqList_update [simp]:
  "nodeFreq (s\<lparr>freqToFreqList := x\<rparr>) m = nodeFreq s m"
  by (simp add: nodeFreq_def)

lemma heap_setFreq:
  "val (heap (setFreq n f s) ! m) = val (heap s ! m)"
  "key (heap (setFreq n f s) ! m) = key (heap s ! m)"
  by (cases "n < length (heap s)"; simp add: setFreq_def nth_list_update list_update_beyond)+

lemma set_removeNode [simp]: "set (removeNode n b) = set b - {n}"
  by (simp add: removeNode_def)

lemma distinct_removeNode: "distinct b \<Longrightarrow> distinct (removeNode n b)"
  by (simp add: removeNode_def distinct_removeAll)

text \<open>Moving a node to the list of a new frequency.\<close>

lemma inv0_move:
  assumes i: "inv0 s" and n: "n < length (heap s)" and f: "1 \<le> f'"
    and r: "removeFromFreqList n s = Some s1"
  shows "inv0 (addToFreqList n (setFreq n f' s1)) \<and>
         sameEntries s (addToFreqList n (setFreq n f' s1))"
proof -
  define s3 where "s3 = addToFreqList n (setFreq n f' s1)"
  from r have s1: "s1 = s\<lparr>freqToFreqList := map (\<lambda>(f, b). (f, removeNode n b)) (freqToFreqList s)\<rparr>"
    by (simp add: removeFromFreqList_Some)
  have nm: "nodeMap s3 = nodeMap s" and len: "length (heap s3) = length (heap s)"
    by (simp_all add: s1 s3_def)
  have nf: "\<And>m. nodeFreq s3 m = (if m = n then f' else nodeFreq s m)"
    using n by (simp add: nodeFreq_setFreq s1 s3_def)
  have nf2: "nodeFreq (setFreq n f' s1) n = f'"
    using n by (simp add: nodeFreq_setFreq s1)
  have mo: "\<And>f. map_of (freqToFreqList s3) f =
      (if f = f' then Some (case map_of (freqToFreqList s) f of None \<Rightarrow> [n] | Some b \<Rightarrow> removeNode n b @ [n])
       else map_option (removeNode n) (map_of (freqToFreqList s) f))"
    unfolding s3_def by (simp add: map_of_addToFreqList nf2) (simp add: s1 map_of_removeNode split: option.splits)
  have a: "distinct (map fst (nodeMap s3))" "distinct (map snd (nodeMap s3))"
    using i by (simp_all add: nm inv0_def)
  have ky: "\<And>m. key (heap s3 ! m) = key (heap s ! m)"
    by (simp add: s3_def heap_setFreq s1)
  have b: "\<forall>k m. (k, m) \<in> set (nodeMap s3) \<longrightarrow>
        m < length (heap s3) \<and> key (heap s3 ! m) = k \<and>
        (\<exists>b. map_of (freqToFreqList s3) (nodeFreq s3 m) = Some b \<and> m \<in> set b)"
  proof (intro allI impI)
    fix k m assume "(k, m) \<in> set (nodeMap s3)"
    then have "(k, m) \<in> set (nodeMap s)" by (simp only: nm)
    with i obtain b0 where m: "m < length (heap s)" "key (heap s ! m) = k"
      "map_of (freqToFreqList s) (nodeFreq s m) = Some b0" "m \<in> set b0"
      unfolding inv0_def by blast
    have "\<exists>b. map_of (freqToFreqList s3) (nodeFreq s3 m) = Some b \<and> m \<in> set b"
    proof (cases "m = n")
      case True
      then show ?thesis by (simp add: nf mo split: option.splits)
    next
      case False
      then show ?thesis using m(3,4) by (auto simp: nf mo)
    qed
    with m show "m < length (heap s3) \<and> key (heap s3 ! m) = k \<and>
        (\<exists>b. map_of (freqToFreqList s3) (nodeFreq s3 m) = Some b \<and> m \<in> set b)"
      by (simp add: len ky)
  qed
  have c: "\<forall>f b. map_of (freqToFreqList s3) f = Some b \<longrightarrow>
        1 \<le> f \<and> distinct b \<and> (\<forall>m \<in> set b. m < length (heap s3) \<and> nodeFreq s3 m = f)"
  proof (intro allI impI)
    fix g b assume gb: "map_of (freqToFreqList s3) g = Some b"
    have old: "\<And>b0. map_of (freqToFreqList s) g = Some b0 \<Longrightarrow>
        1 \<le> g \<and> distinct b0 \<and> (\<forall>m \<in> set b0. m < length (heap s) \<and> nodeFreq s m = g)"
      using i by (simp add: inv0_def)
    show "1 \<le> g \<and> distinct b \<and> (\<forall>m \<in> set b. m < length (heap s3) \<and> nodeFreq s3 m = g)"
    proof (cases "g = f'")
      case True
      show ?thesis
      proof (cases "map_of (freqToFreqList s) g")
        case None
        with gb True have "b = [n]" by (simp add: mo)
        then show ?thesis using True f n by (simp add: len nf)
      next
        case (Some b0)
        with gb True have "b = removeNode n b0 @ [n]" by (simp add: mo)
        then show ?thesis using True f n old [OF Some]
          by (auto simp: len nf distinct_removeNode)
      qed
    next
      case False
      with gb obtain b0 where b0: "map_of (freqToFreqList s) g = Some b0" "b = removeNode n b0"
        by (auto simp: mo)
      then show ?thesis using old [OF b0(1)]
        by (auto simp: len nf distinct_removeNode)
    qed
  qed
  have d: "\<forall>m < length (heap s3). 1 \<le> nodeFreq s3 m"
    using i f by (simp add: len nf inv0_def)
  have e: "nodeMap s3 \<noteq> [] \<longrightarrow> map_of (freqToFreqList s3) 1 \<noteq> None"
    using i by (auto simp: nm mo inv0_def)
  have "inv0 s3"
    unfolding inv0_def by (intro conjI a b c d e)
  moreover have "sameEntries s s3"
    by (simp add: sameEntries_def nm len ky) (simp add: s3_def heap_setFreq s1)
  ultimately show ?thesis
    by (simp only: s3_def)
qed

lemma move_fields:
  assumes "removeFromFreqList n s = Some s1"
  shows "minFreq (addToFreqList n (setFreq n f' s1)) = minFreq s"
    "curTotalNum (addToFreqList n (setFreq n f' s1)) = curTotalNum s"
    "curAverageNum (addToFreqList n (setFreq n f' s1)) = curAverageNum s"
  using assms by (auto simp: removeFromFreqList_Some)

lemma move_nodeFreq:
  assumes "removeFromFreqList n s = Some s1" "n < length (heap s)"
  shows "nodeFreq (addToFreqList n (setFreq n f' s1)) m = (if m = n then f' else nodeFreq s m)"
  using assms by (auto simp: removeFromFreqList_Some nodeFreq_setFreq)

lemma inv0_removable:
  assumes "inv0 s" "(k, n) \<in> set (nodeMap s)"
  shows "\<exists>s1. removeFromFreqList n s = Some s1" "n < length (heap s)" "1 \<le> nodeFreq s n"
proof -
  from assms show n: "n < length (heap s)"
    unfolding inv0_def by blast
  from assms have "map_of (freqToFreqList s) (nodeFreq s n) \<noteq> None"
    unfolding inv0_def by blast
  then show "\<exists>s1. removeFromFreqList n s = Some s1"
    by (simp add: removeFromFreqList_Some)
  from assms(1) n show "1 \<le> nodeFreq s n"
    unfolding inv0_def by blast
qed

section \<open>The aging pass\<close>

lemma agingLoop_Cons:
  assumes "removeFromFreqList n s = Some s1"
  shows "agingLoop (n # ns) s =
     agingLoop ns (addToFreqList n (setFreq n (max 1 (nodeFreq s n - int_div (maxAverageNum s) 2)) s1))"
proof -
  have "(if f < 1 then 1 else f) = max 1 f" for f :: int
    by (simp add: max_def)
  moreover have "nodeFreq s1 n = nodeFreq s n" "maxAverageNum s1 = maxAverageNum s"
    using assms by (auto simp: removeFromFreqList_Some)
  ultimately show ?thesis
    using assms by (simp add: Let_def)
qed

lemma agingLoop_inv0:
  assumes "inv0 s" "set ns \<subseteq> snd ` set (nodeMap s)"
  shows "\<exists>s'. agingLoop ns s = Some s' \<and> inv0 s' \<and> sameEntries s s' \<and>
           minFreq s' = minFreq s \<and> curTotalNum s' = curTotalNum s \<and>
           curAverageNum s' = curAverageNum s"
  using assms
proof (induction ns arbitrary: s)
  case Nil
  then show ?case by simp
next
  case (Cons n ns)
  from Cons.prems obtain k where k: "(k, n) \<in> set (nodeMap s)"
    by auto
  from inv0_removable [OF Cons.prems(1) k] obtain s1
    where s1: "removeFromFreqList n s = Some s1" and n: "n < length (heap s)"
    by blast
  define s3 where
    "s3 = addToFreqList n (setFreq n (max 1 (nodeFreq s n - int_div (maxAverageNum s) 2)) s1)"
  have step: "agingLoop (n # ns) s = agingLoop ns s3"
    unfolding s3_def by (rule agingLoop_Cons [OF s1])
  have "1 \<le> max 1 (nodeFreq s n - int_div (maxAverageNum s) 2)"
    by simp
  from inv0_move [OF Cons.prems(1) n this s1]
  have i3: "inv0 s3" and se: "sameEntries s s3"
    by (simp_all add: s3_def)
  have fr: "minFreq s3 = minFreq s" "curTotalNum s3 = curTotalNum s"
    "curAverageNum s3 = curAverageNum s"
    unfolding s3_def by (rule move_fields [OF s1])+
  from se Cons.prems(2) have "set ns \<subseteq> snd ` set (nodeMap s3)"
    by (simp add: sameEntries_def)
  from Cons.IH [OF i3 this] obtain s' where s':
    "agingLoop ns s3 = Some s'" "inv0 s'" "sameEntries s3 s'"
    "minFreq s' = minFreq s3" "curTotalNum s' = curTotalNum s3" "curAverageNum s' = curAverageNum s3"
    by blast
  from s' se have "sameEntries s s'"
    using sameEntries_trans by blast
  with s' step fr show ?case
    by simp
qed

lemma agingLoop_freq:
  assumes "agingLoop ns s = Some s'" "distinct ns" "\<forall>n \<in> set ns. n < length (heap s)"
  shows "nodeFreq s' m =
     (if m \<in> set ns then max 1 (nodeFreq s m - int_div (maxAverageNum s) 2) else nodeFreq s m)"
  using assms
proof (induction ns arbitrary: s)
  case Nil
  then show ?case by simp
next
  case (Cons n ns)
  from Cons.prems(1) obtain s1 where s1: "removeFromFreqList n s = Some s1"
    by (auto split: option.splits)
  define f where "f = max 1 (nodeFreq s n - int_div (maxAverageNum s) 2)"
  define s3 where "s3 = addToFreqList n (setFreq n f s1)"
  have step: "agingLoop ns s3 = Some s'"
    using Cons.prems(1) unfolding s3_def f_def agingLoop_Cons [OF s1] .
  from Cons.prems(3) have n: "n < length (heap s)"
    by simp
  have nf: "\<And>m. nodeFreq s3 m = (if m = n then f else nodeFreq s m)"
    unfolding s3_def by (rule move_nodeFreq [OF s1 n])
  have mx: "maxAverageNum s3 = maxAverageNum s" and len: "length (heap s3) = length (heap s)"
    using s1 by (auto simp: s3_def removeFromFreqList_Some)
  from Cons.prems have "distinct ns" "\<forall>n \<in> set ns. n < length (heap s3)" "n \<notin> set ns"
    by (simp_all add: len)
  from Cons.IH [OF step this(1,2)] this(3) show ?case
    by (auto simp: nf mx f_def)
qed

lemma agingLoop_any:
  assumes "inv0 s" "distinct ns" "set ns = snd ` set (nodeMap s)"
  shows "\<exists>s'. agingLoop ns s = Some s' \<and> inv0 s' \<and> sameEntries s s' \<and>
           minFreq s' = minFreq s \<and> curTotalNum s' = curTotalNum s \<and>
           curAverageNum s' = curAverageNum s \<and>
           (\<forall>m. nodeFreq s' m =
              (if m \<in> snd ` set (nodeMap s)
               then max 1 (nodeFreq s m - int_div (maxAverageNum s) 2) else nodeFreq s m))"
proof -
  from assms(3) have "set ns \<subseteq> snd ` set (nodeMap s)"
    by simp
  from agingLoop_inv0 [OF assms(1) this] obtain s' where s':
    "agingLoop ns s = Some s'" "inv0 s'" "sameEntries s s'"
    "minFreq s' = minFreq s" "curTotalNum s' = curTotalNum s" "curAverageNum s' = curAverageNum s"
    by auto
  have "\<forall>n \<in> set ns. n < length (heap s)"
    using assms(1,3) unfolding inv0_def by fastforce
  from agingLoop_freq [OF s'(1) assms(2) this] s' assms(3) show ?thesis
    by simp
qed

lemma agingLoop_handle:
  assumes "inv0 s"
  shows "\<exists>s'. agingLoop (rev (map snd (nodeMap s))) s = Some s' \<and> inv0 s' \<and> sameEntries s s' \<and>
           minFreq s' = minFreq s \<and> curTotalNum s' = curTotalNum s \<and>
           curAverageNum s' = curAverageNum s \<and>
           (\<forall>m. nodeFreq s' m =
              (if m \<in> snd ` set (nodeMap s)
               then max 1 (nodeFreq s m - int_div (maxAverageNum s) 2) else nodeFreq s m))"
proof -
  have "distinct (map snd (nodeMap s))"
    using assms unfolding inv0_def by blast
  then have "distinct (rev (map snd (nodeMap s)))"
    by simp
  moreover have "set (rev (map snd (nodeMap s))) = snd ` set (nodeMap s)"
    by simp
  ultimately show ?thesis
    by (rule agingLoop_any [OF assms])
qed

section \<open>Recomputing the minimum frequency\<close>

lemma minScan_cases:
  "fold (\<lambda>(f, b) m. if \<not> isEmpty b then min m f else m) al a = (a::int) \<or>
   (\<exists>b. (fold (\<lambda>(f, b) m. if \<not> isEmpty b then min m f else m) al a, b) \<in> set al \<and> b \<noteq> [])"
proof (induction al arbitrary: a)
  case Nil
  then show ?case by simp
next
  case (Cons x al)
  obtain f b where x: "x = (f, b)" by (cases x)
  show ?case
  proof (cases "b = []")
    case True
    with Cons [of a] x show ?thesis by (auto simp: isEmpty_def)
  next
    case False
    with Cons [of "min a f"] x show ?thesis by (auto simp: isEmpty_def min_def split: if_splits)
  qed
qed

lemma minScan_le_start:
  "fold (\<lambda>(f, b) m. if \<not> isEmpty b then min m f else m) al a \<le> (a::int)"
proof (induction al arbitrary: a)
  case Nil
  then show ?case by simp
next
  case (Cons x al)
  obtain f b where x: "x = (f, b)" by (cases x)
  from Cons [of a] Cons [of "min a f"] x show ?case
    by (auto simp: min_def split: if_splits)
qed

lemma minScan_le_key:
  "(f, b) \<in> set al \<Longrightarrow> b \<noteq> [] \<Longrightarrow>
   fold (\<lambda>(f, b) m. if \<not> isEmpty b then min m f else m) al a \<le> (f::int)"
proof (induction al arbitrary: a)
  case Nil
  then show ?case by simp
next
  case (Cons x al)
  obtain g c where x: "x = (g, c)" by (cases x)
  show ?case
  proof (cases "(f, b) = x")
    case True
    then have "fold (\<lambda>(f, b) m. if \<not> isEmpty b then min m f else m) (x # al) a =
       fold (\<lambda>(f, b) m. if \<not> isEmpty b then min m f else m) al (min a f)"
      using Cons.prems by (auto simp: isEmpty_def)
    also have "\<dots> \<le> min a f" by (rule minScan_le_start)
    also have "\<dots> \<le> f" by simp
    finally show ?thesis .
  next
    case False
    with Cons.prems have "(f, b) \<in> set al" by auto
    from Cons.IH [OF this Cons.prems(2)] x show ?thesis by simp
  qed
qed

lemma updateMinFreq_fields [simp]:
  "nodeMap (updateMinFreq s) = nodeMap s"
  "heap (updateMinFreq s) = heap s"
  "freqToFreqList (updateMinFreq s) = freqToFreqList s"
  "capacity (updateMinFreq s) = capacity s"
  "maxAverageNum (updateMinFreq s) = maxAverageNum s"
  "curAverageNum (updateMinFreq s) = curAverageNum s"
  "curTotalNum (updateMinFreq s) = curTotalNum s"
  by (simp_all add: updateMinFreq_def Let_def)

lemma nodeFreq_updateMinFreq [simp]: "nodeFreq (updateMinFreq s) m = nodeFreq s m"
  by (simp add: nodeFreq_def)

lemma inv0_updateMinFreq [simp]: "inv0 (updateMinFreq s) = inv0 s"
  by (rule inv0_cong) simp_all

lemma sameEntries_updateMinFreq [simp]: "sameEntries s (updateMinFreq s)"
  by (simp add: sameEntries_def)

lemma minFreq_updateMinFreq:
  "minFreq (updateMinFreq s) = 1 \<or>
   (\<exists>b. (minFreq (updateMinFreq s), b) \<in> set (freqToFreqList s) \<and> b \<noteq> [])"
  using minScan_cases [of "freqToFreqList s" INT8_MAX]
  by (auto simp: updateMinFreq_def Let_def)

lemma updateMinFreq_ok:
  assumes "inv0 s"
  shows "1 \<le> minFreq (updateMinFreq s)" "minOK (updateMinFreq s)"
proof -
  from minFreq_updateMinFreq [of s]
  show "1 \<le> minFreq (updateMinFreq s)"
  proof
    assume "minFreq (updateMinFreq s) = 1"
    then show ?thesis by simp
  next
    assume "\<exists>b. (minFreq (updateMinFreq s), b) \<in> set (freqToFreqList s) \<and> b \<noteq> []"
    then obtain b where "(minFreq (updateMinFreq s), b) \<in> set (freqToFreqList s)" by blast
    then obtain b' where "map_of (freqToFreqList s) (minFreq (updateMinFreq s)) = Some b'"
      by (metis weak_map_of_SomeI)
    with assms show ?thesis unfolding inv0_def by blast
  qed
  from minFreq_updateMinFreq [of s]
  show "minOK (updateMinFreq s)"
  proof
    assume "minFreq (updateMinFreq s) = 1"
    with assms show ?thesis by (simp add: minOK_def inv0_def)
  next
    assume "\<exists>b. (minFreq (updateMinFreq s), b) \<in> set (freqToFreqList s) \<and> b \<noteq> []"
    then obtain b where "(minFreq (updateMinFreq s), b) \<in> set (freqToFreqList s)" by blast
    then obtain b' where "map_of (freqToFreqList s) (minFreq (updateMinFreq s)) = Some b'"
      by (metis weak_map_of_SomeI)
    then show ?thesis by (simp add: minOK_def)
  qed
qed

lemma updateMinFreq_one:
  assumes "inv0 s" "map_of (freqToFreqList s) 1 = Some b" "b \<noteq> []"
  shows "minFreq (updateMinFreq s) = 1"
proof -
  let ?m = "fold (\<lambda>(f, b) m. if \<not> isEmpty b then min m f else m) (freqToFreqList s) INT8_MAX"
  from assms(2) have "(1, b) \<in> set (freqToFreqList s)"
    by (rule map_of_SomeD)
  from minScan_le_key [OF this assms(3)] have "?m \<le> 1" .
  moreover have "1 \<le> minFreq (updateMinFreq s)"
    by (rule updateMinFreq_ok [OF assms(1)])
  ultimately show ?thesis
    by (auto simp: updateMinFreq_def Let_def INT8_MAX_def split: if_splits)
qed

section \<open>The running total and the aging trigger\<close>

lemma handleOverMaxAverageNum_ok:
  assumes "inv0 s"
  shows "\<exists>s'. handleOverMaxAverageNum s = Some s' \<and> inv0 s' \<and> sameEntries s s' \<and>
           curTotalNum s' = curTotalNum s \<and> curAverageNum s' = curAverageNum s \<and>
           (1 \<le> minFreq s \<longrightarrow> 1 \<le> minFreq s') \<and> (minOK s \<longrightarrow> minOK s') \<and>
           (\<forall>m. nodeFreq s' m =
              (if m \<in> snd ` set (nodeMap s)
               then max 1 (nodeFreq s m - int_div (maxAverageNum s) 2) else nodeFreq s m)) \<and>
           (\<forall>b. nodeMap s \<noteq> [] \<and> map_of (freqToFreqList s') 1 = Some b \<and> b \<noteq> [] \<longrightarrow>
              minFreq s' = 1)"
proof (cases "nodeMap s = []")
  case True
  with assms show ?thesis
    by (simp add: handleOverMaxAverageNum_def)
next
  case False
  from agingLoop_handle [OF assms] obtain s1 where s1:
    "agingLoop (rev (map snd (nodeMap s))) s = Some s1" "inv0 s1" "sameEntries s s1"
    "minFreq s1 = minFreq s" "curTotalNum s1 = curTotalNum s" "curAverageNum s1 = curAverageNum s"
    "\<forall>m. nodeFreq s1 m =
              (if m \<in> snd ` set (nodeMap s)
               then max 1 (nodeFreq s m - int_div (maxAverageNum s) 2) else nodeFreq s m)"
    by blast
  have h: "handleOverMaxAverageNum s = Some (updateMinFreq s1)"
    using False s1(1) by (simp add: handleOverMaxAverageNum_def)
  have "sameEntries s (updateMinFreq s1)"
    using s1(3) sameEntries_updateMinFreq sameEntries_trans by blast
  moreover have "\<forall>b. map_of (freqToFreqList (updateMinFreq s1)) 1 = Some b \<and> b \<noteq> [] \<longrightarrow>
      minFreq (updateMinFreq s1) = 1"
    using updateMinFreq_one [OF s1(2)] by simp
  ultimately show ?thesis
    using h s1 updateMinFreq_ok [OF s1(2)] by simp
qed

lemma recomputeAverage_fields [simp]:
  "nodeMap (recomputeAverage s) = nodeMap s"
  "heap (recomputeAverage s) = heap s"
  "freqToFreqList (recomputeAverage s) = freqToFreqList s"
  "capacity (recomputeAverage s) = capacity s"
  "minFreq (recomputeAverage s) = minFreq s"
  "maxAverageNum (recomputeAverage s) = maxAverageNum s"
  "curTotalNum (recomputeAverage s) = curTotalNum s"
  "curAverageNum (recomputeAverage s) =
     (if nodeMap s = [] then 0 else average (curTotalNum s) (length (nodeMap s)))"
  by (simp_all add: recomputeAverage_def)

lemma nodeFreq_recomputeAverage [simp]: "nodeFreq (recomputeAverage s) m = nodeFreq s m"
  by (simp add: nodeFreq_def)

lemma nodeFreq_counter_update [simp]:
  "nodeFreq (s\<lparr>curTotalNum := x\<rparr>) m = nodeFreq s m"
  "nodeFreq (s\<lparr>minFreq := y\<rparr>) m = nodeFreq s m"
  "nodeFreq (s\<lparr>nodeMap := z\<rparr>) m = nodeFreq s m"
  by (simp_all add: nodeFreq_def)

lemma inv0_counter_update [simp]:
  "inv0 (recomputeAverage s) = inv0 s"
  "inv0 (s\<lparr>curTotalNum := x\<rparr>) = inv0 s"
  "inv0 (s\<lparr>minFreq := y\<rparr>) = inv0 s"
  by (rule inv0_cong; simp)+

lemma addFreqNum_ok:
  assumes "inv0 s"
  shows "\<exists>s'. addFreqNum s = Some s' \<and> inv0 s' \<and> sameEntries s s' \<and>
           curTotalNum s' = curTotalNum s + 1 \<and>
           (1 \<le> minFreq s \<longrightarrow> 1 \<le> minFreq s') \<and> (minOK s \<longrightarrow> minOK s') \<and>
           (\<forall>m. nodeFreq s' m =
              (if agingDue s \<and> m \<in> snd ` set (nodeMap s)
               then max 1 (nodeFreq s m - int_div (maxAverageNum s) 2) else nodeFreq s m)) \<and>
           curAverageNum s' =
             (if nodeMap s = [] then 0 else average (curTotalNum s + 1) (length (nodeMap s)))"
proof -
  define s1 where "s1 = recomputeAverage (s\<lparr>curTotalNum := curTotalNum s + 1\<rparr>)"
  have f: "nodeMap s1 = nodeMap s" "curTotalNum s1 = curTotalNum s + 1"
    "maxAverageNum s1 = maxAverageNum s" "minFreq s1 = minFreq s"
    "freqToFreqList s1 = freqToFreqList s" "\<And>m. nodeFreq s1 m = nodeFreq s m"
    "curAverageNum s1 =
       (if nodeMap s = [] then 0 else average (curTotalNum s + 1) (length (nodeMap s)))"
    by (simp_all add: s1_def)
  have i1: "inv0 s1" using assms by (simp add: s1_def)
  have se: "sameEntries s s1" by (simp add: s1_def sameEntries_def)
  have mk: "minOK s1 = minOK s" by (simp add: minOK_def f)
  have due: "curAverageNum s1 > maxAverageNum s1 \<longleftrightarrow> agingDue s"
    by (simp add: s1_def agingDue_def)
  have a: "addFreqNum s = (if agingDue s then handleOverMaxAverageNum s1 else Some s1)"
    using due by (simp add: addFreqNum_def Let_def s1_def)
  show ?thesis
  proof (cases "agingDue s")
    case True
    from handleOverMaxAverageNum_ok [OF i1] obtain s' where s':
      "handleOverMaxAverageNum s1 = Some s'" "inv0 s'" "sameEntries s1 s'"
      "curTotalNum s' = curTotalNum s1" "curAverageNum s' = curAverageNum s1"
      "1 \<le> minFreq s1 \<longrightarrow> 1 \<le> minFreq s'" "minOK s1 \<longrightarrow> minOK s'"
      "\<forall>m. nodeFreq s' m =
              (if m \<in> snd ` set (nodeMap s1)
               then max 1 (nodeFreq s1 m - int_div (maxAverageNum s1) 2) else nodeFreq s1 m)"
      by blast
    from se s'(3) have "sameEntries s s'" by (rule sameEntries_trans)
    with True a s' show ?thesis by (simp add: f mk)
  next
    case False
    with a i1 se show ?thesis by (simp add: f mk)
  qed
qed

section \<open>Eviction\<close>

lemma distinct_delete_snd:
  "distinct (map snd al) \<Longrightarrow> distinct (map snd (AList.delete k al))"
  by (simp add: AList.delete_eq distinct_map_filter)

lemma set_delete_iff:
  "(k, n) \<in> set (AList.delete kk al) \<longleftrightarrow> (k, n) \<in> set al \<and> k \<noteq> kk"
  by (auto simp: AList.delete_eq)

lemma inv0_evict:
  assumes i: "inv0 s"
    and bs: "bs = freqToFreqList s \<or>
             (n < length (heap s) \<and> kk = key (heap s ! n) \<and>
              bs = map (\<lambda>(f, b). (f, removeNode n b)) (freqToFreqList s))"
  shows "inv0 (s\<lparr>freqToFreqList := bs, nodeMap := AList.delete kk (nodeMap s)\<rparr>)"
proof -
  define s' where "s' = s\<lparr>freqToFreqList := bs, nodeMap := AList.delete kk (nodeMap s)\<rparr>"
  have nm: "nodeMap s' = AList.delete kk (nodeMap s)" and hp: "heap s' = heap s"
    and nf: "\<And>m. nodeFreq s' m = nodeFreq s m" and fl: "freqToFreqList s' = bs"
    by (simp_all add: s'_def nodeFreq_def)
  have sub: "\<And>g b. map_of bs g = Some b \<Longrightarrow>
     \<exists>b0. map_of (freqToFreqList s) g = Some b0 \<and> set b \<subseteq> set b0 \<and>
          (distinct b0 \<longrightarrow> distinct b)"
    using bs by (auto simp: map_of_removeNode distinct_removeNode)
  have a: "distinct (map fst (nodeMap s'))" "distinct (map snd (nodeMap s'))"
    using i by (simp_all add: nm inv0_def distinct_delete distinct_delete_snd)
  have b: "\<forall>k m. (k, m) \<in> set (nodeMap s') \<longrightarrow>
        m < length (heap s') \<and> key (heap s' ! m) = k \<and>
        (\<exists>b. map_of (freqToFreqList s') (nodeFreq s' m) = Some b \<and> m \<in> set b)"
  proof (intro allI impI)
    fix k m assume "(k, m) \<in> set (nodeMap s')"
    then have km: "(k, m) \<in> set (nodeMap s)" "k \<noteq> kk"
      by (simp_all add: nm set_delete_iff)
    with i obtain b0 where m: "m < length (heap s)" "key (heap s ! m) = k"
      "map_of (freqToFreqList s) (nodeFreq s m) = Some b0" "m \<in> set b0"
      unfolding inv0_def by blast
    have "\<exists>b. map_of bs (nodeFreq s m) = Some b \<and> m \<in> set b"
      using bs
    proof
      assume "bs = freqToFreqList s"
      with m show ?thesis by simp
    next
      assume r: "n < length (heap s) \<and> kk = key (heap s ! n) \<and>
              bs = map (\<lambda>(f, b). (f, removeNode n b)) (freqToFreqList s)"
      with m(2) km(2) have "m \<noteq> n" by auto
      with r m show ?thesis by (simp add: map_of_removeNode)
    qed
    with m show "m < length (heap s') \<and> key (heap s' ! m) = k \<and>
        (\<exists>b. map_of (freqToFreqList s') (nodeFreq s' m) = Some b \<and> m \<in> set b)"
      by (simp add: hp nf fl)
  qed
  have c: "\<forall>f b. map_of (freqToFreqList s') f = Some b \<longrightarrow>
        1 \<le> f \<and> distinct b \<and> (\<forall>m \<in> set b. m < length (heap s') \<and> nodeFreq s' m = f)"
  proof (intro allI impI)
    fix g b assume "map_of (freqToFreqList s') g = Some b"
    then have "map_of bs g = Some b" by (simp add: fl)
    from sub [OF this] obtain b0 where b0: "map_of (freqToFreqList s) g = Some b0" "set b \<subseteq> set b0"
      "distinct b0 \<longrightarrow> distinct b"
      by blast
    from i b0(1) have "1 \<le> g \<and> distinct b0 \<and> (\<forall>m \<in> set b0. m < length (heap s) \<and> nodeFreq s m = g)"
      unfolding inv0_def by blast
    with b0(2,3) show "1 \<le> g \<and> distinct b \<and> (\<forall>m \<in> set b. m < length (heap s') \<and> nodeFreq s' m = g)"
      by (auto simp: hp nf)
  qed
  have d: "\<forall>m < length (heap s'). 1 \<le> nodeFreq s' m"
    using i by (simp add: hp nf inv0_def)
  have "nodeMap s' \<noteq> [] \<Longrightarrow> nodeMap s \<noteq> []"
    by (auto simp: nm)
  then have e: "nodeMap s' \<noteq> [] \<longrightarrow> map_of (freqToFreqList s') 1 \<noteq> None"
    using i bs by (auto simp: fl inv0_def map_of_removeNode)
  have "inv0 s'"
    unfolding inv0_def by (intro conjI a b c d e)
  then show ?thesis
    by (simp only: s'_def)
qed

lemma decreaseFreqNum_fields [simp]:
  "nodeMap (decreaseFreqNum x s) = nodeMap s"
  "heap (decreaseFreqNum x s) = heap s"
  "freqToFreqList (decreaseFreqNum x s) = freqToFreqList s"
  "capacity (decreaseFreqNum x s) = capacity s"
  "minFreq (decreaseFreqNum x s) = minFreq s"
  "maxAverageNum (decreaseFreqNum x s) = maxAverageNum s"
  "inv0 (decreaseFreqNum x s) = inv0 s"
  by (simp_all add: decreaseFreqNum_def)

lemma kickOut_ok:
  assumes i: "inv0 s" and m: "minOK s" and ne: "nodeMap s \<noteq> []"
  shows "\<exists>s' kk. kickOut s = Some s' \<and> inv0 s' \<and> heap s' = heap s \<and>
           nodeMap s' = AList.delete kk (nodeMap s) \<and> minFreq s' = minFreq s \<and>
           capacity s' = capacity s \<and> maxAverageNum s' = maxAverageNum s"
proof -
  from m ne obtain b where b: "map_of (freqToFreqList s) (minFreq s) = Some b"
    by (auto simp: minOK_def)
  show ?thesis
  proof (cases b)
    case Nil
    from i ne obtain b1 where b1: "map_of (freqToFreqList s) 1 = Some b1"
      by (auto simp: inv0_def)
    have k: "kickOut s = Some (decreaseFreqNum 1 (s\<lparr>nodeMap := AList.delete default (nodeMap s)\<rparr>))"
      by (simp add: kickOut_def b Nil b1 getFirstNode_def)
    from inv0_evict [OF i, of "freqToFreqList s" undefined default]
    have "inv0 (s\<lparr>nodeMap := AList.delete default (nodeMap s)\<rparr>)"
      by simp
    with k show ?thesis
      by (intro exI [of _ "decreaseFreqNum 1 (s\<lparr>nodeMap := AList.delete default (nodeMap s)\<rparr>)"]
                exI [of _ default]) simp
  next
    case (Cons n ns)
    with i b have n: "n < length (heap s)" "nodeFreq s n = minFreq s"
      unfolding inv0_def by auto
    define s1 where
      "s1 = s\<lparr>freqToFreqList := map (\<lambda>(f, b). (f, removeNode n b)) (freqToFreqList s)\<rparr>"
    have r: "removeFromFreqList n s = Some s1"
      by (simp add: removeFromFreqList_Some n b s1_def)
    have k: "kickOut s = Some (decreaseFreqNum (nodeFreq s1 n)
                            (s1\<lparr>nodeMap := AList.delete (key (heap s1 ! n)) (nodeMap s1)\<rparr>))"
      by (simp add: kickOut_def b Cons getFirstNode_def r)
    from inv0_evict [OF i, of "map (\<lambda>(f, b). (f, removeNode n b)) (freqToFreqList s)" n "key (heap s ! n)"] n
    have "inv0 (s1\<lparr>nodeMap := AList.delete (key (heap s1 ! n)) (nodeMap s1)\<rparr>)"
      by (simp add: s1_def)
    with k show ?thesis
      by (intro exI [of _ "decreaseFreqNum (nodeFreq s1 n)
                            (s1\<lparr>nodeMap := AList.delete (key (heap s1 ! n)) (nodeMap s1)\<rparr>)"]
                exI [of _ "key (heap s ! n)"]) (simp add: s1_def)
  qed
qed

section \<open>Access to a cached entry\<close>

lemma move_buckets:
  assumes "removeFromFreqList n s = Some s1" "n < length (heap s)"
  shows "map_of (freqToFreqList (addToFreqList n (setFreq n f' s1))) g =
      (if g = f'
       then Some (case map_of (freqToFreqList s) g of None \<Rightarrow> [n] | Some b \<Rightarrow> removeNode n b @ [n])
       else map_option (removeNode n) (map_of (freqToFreqList s) g))"
proof -
  from assms(1) have s1: "s1 = s\<lparr>freqToFreqList := map (\<lambda>(f, b). (f, removeNode n b)) (freqToFreqList s)\<rparr>"
    by (simp add: removeFromFreqList_Some)
  have nf2: "nodeFreq (setFreq n f' s1) n = f'"
    using assms(2) by (simp add: nodeFreq_setFreq s1)
  show ?thesis
    by (simp add: map_of_addToFreqList nf2) (simp add: s1 map_of_removeNode split: option.splits)
qed

lemma agingDue_cong:
  "nodeMap s' = nodeMap s \<Longrightarrow> curTotalNum s' = curTotalNum s \<Longrightarrow>
   maxAverageNum s' = maxAverageNum s \<Longrightarrow> agingDue s' = agingDue s"
  by (simp add: agingDue_def)

lemma getInternal_unfold:
  assumes "removeFromFreqList n s = Some s1"
    and "s2 = addToFreqList n (setFreq n (nodeFreq s1 n + 1) s1)"
  shows "getInternal n s =
     (if nodeFreq s2 n - 1 = minFreq s2 then
        (case map_of (freqToFreqList s2) (nodeFreq s2 n - 1) of
           None \<Rightarrow> None
         | Some b \<Rightarrow>
             map_option (Pair (val (heap s ! n)))
               (addFreqNum (if isEmpty b then s2\<lparr>minFreq := minFreq s2 + 1\<rparr> else s2)))
      else map_option (Pair (val (heap s ! n))) (addFreqNum s2))"
  unfolding getInternal_def Let_def assms option.case by (rule refl)

lemma getInternal_ok:
  assumes i0: "inv0 s" and kn: "(k, n) \<in> set (nodeMap s)"
  shows "\<exists>s'. getInternal n s = Some (val (heap s ! n), s') \<and> inv0 s' \<and> (inv s \<longrightarrow> inv s') \<and>
           sameEntries s s' \<and> curTotalNum s' = curTotalNum s + 1 \<and>
           nodeFreq s' n =
             (if agingDue s then max 1 (nodeFreq s n + 1 - int_div (maxAverageNum s) 2)
              else nodeFreq s n + 1) \<and>
           (\<forall>m. nodeFreq s' m =
              (if agingDue s \<and> m \<in> snd ` set (nodeMap s)
               then max 1 ((if m = n then nodeFreq s n + 1 else nodeFreq s m) -
                           int_div (maxAverageNum s) 2)
               else (if m = n then nodeFreq s n + 1 else nodeFreq s m))) \<and>
           curAverageNum s' = average (curTotalNum s + 1) (length (nodeMap s))"
proof -
  from inv0_removable [OF i0 kn] obtain s1
    where s1: "removeFromFreqList n s = Some s1" and n: "n < length (heap s)"
      and f1: "1 \<le> nodeFreq s n"
    by blast
  from s1 have nf1: "nodeFreq s1 n = nodeFreq s n"
    by (auto simp: removeFromFreqList_Some)
  from s1 obtain b0 where b0: "map_of (freqToFreqList s) (nodeFreq s n) = Some b0"
    by (auto simp: removeFromFreqList_Some)
  define s2 where "s2 = addToFreqList n (setFreq n (nodeFreq s n + 1) s1)"
  have "1 \<le> nodeFreq s n + 1" using f1 by simp
  from inv0_move [OF i0 n this s1]
  have i2: "inv0 s2" and se2: "sameEntries s s2"
    by (simp_all add: s2_def)
  have fr: "minFreq s2 = minFreq s" "curTotalNum s2 = curTotalNum s"
    unfolding s2_def by (rule move_fields [OF s1])+
  have nf2: "nodeFreq s2 n = nodeFreq s n + 1"
    unfolding s2_def by (subst move_nodeFreq [OF s1 n]) simp
  have nf2all: "\<And>m. nodeFreq s2 m = (if m = n then nodeFreq s n + 1 else nodeFreq s m)"
    unfolding s2_def by (rule move_nodeFreq [OF s1 n])
  have bk: "\<And>g. map_of (freqToFreqList s2) g =
      (if g = nodeFreq s n + 1
       then Some (case map_of (freqToFreqList s) g of None \<Rightarrow> [n] | Some b \<Rightarrow> removeNode n b @ [n])
       else map_option (removeNode n) (map_of (freqToFreqList s) g))"
    unfolding s2_def by (rule move_buckets [OF s1 n])
  have bf: "map_of (freqToFreqList s2) (nodeFreq s n) = Some (removeNode n b0)"
    by (simp add: bk b0)
  define s3 where
    "s3 = (if nodeFreq s n = minFreq s \<and> isEmpty (removeNode n b0)
           then s2\<lparr>minFreq := minFreq s2 + 1\<rparr> else s2)"
  have "s2 = addToFreqList n (setFreq n (nodeFreq s1 n + 1) s1)"
    by (simp add: s2_def nf1)
  note g0 = getInternal_unfold [OF s1 this]
  have g: "getInternal n s = map_option (Pair (val (heap s ! n))) (addFreqNum s3)"
  proof (cases "nodeFreq s n = minFreq s")
    case True
    with g0 bf show ?thesis
      by (simp add: nf2 fr s3_def)
  next
    case False
    with g0 show ?thesis
      by (simp add: nf2 fr s3_def)
  qed
  have nm3: "nodeMap s3 = nodeMap s2" and fl3: "freqToFreqList s3 = freqToFreqList s2"
    and ct3: "curTotalNum s3 = curTotalNum s2" and mx3: "maxAverageNum s3 = maxAverageNum s2"
    and nf3: "\<And>m. nodeFreq s3 m = nodeFreq s2 m"
    by (simp_all add: s3_def)
  have i3: "inv0 s3" using i2 by (simp add: s3_def)
  have se3: "sameEntries s s3" using se2 by (simp add: s3_def sameEntries_def)
  have m3: "1 \<le> minFreq s \<Longrightarrow> 1 \<le> minFreq s3" by (simp add: s3_def fr)
  have mk3: "minOK s3" if mk: "minOK s"
  proof (cases "nodeFreq s n = minFreq s \<and> isEmpty (removeNode n b0)")
    case True
    then have "minFreq s3 = nodeFreq s n + 1" by (simp add: s3_def fr)
    then show ?thesis by (simp add: minOK_def fl3 bk)
  next
    case False
    then have ms: "minFreq s3 = minFreq s" by (simp add: s3_def fr)
    from se2 have "nodeMap s2 = nodeMap s" by (simp add: sameEntries_def)
    with mk have "nodeMap s3 \<noteq> [] \<longrightarrow> map_of (freqToFreqList s) (minFreq s) \<noteq> None"
      by (simp add: minOK_def nm3)
    then show ?thesis by (auto simp: minOK_def fl3 bk ms)
  qed
  from se2 have nm2: "nodeMap s2 = nodeMap s" and mx2: "maxAverageNum s2 = maxAverageNum s"
    by (simp_all add: sameEntries_def)
  have due: "agingDue s3 = agingDue s"
    by (rule agingDue_cong) (simp_all add: nm3 nm2 ct3 fr mx3 mx2)
  from kn have nin: "n \<in> snd ` set (nodeMap s3)"
    by (force simp: nm3 nm2)
  from addFreqNum_ok [OF i3] obtain s' where s':
    "addFreqNum s3 = Some s'" "inv0 s'" "sameEntries s3 s'" "curTotalNum s' = curTotalNum s3 + 1"
    "1 \<le> minFreq s3 \<longrightarrow> 1 \<le> minFreq s'" "minOK s3 \<longrightarrow> minOK s'"
    "\<forall>m. nodeFreq s' m =
              (if agingDue s3 \<and> m \<in> snd ` set (nodeMap s3)
               then max 1 (nodeFreq s3 m - int_div (maxAverageNum s3) 2) else nodeFreq s3 m)"
    "curAverageNum s' =
       (if nodeMap s3 = [] then 0 else average (curTotalNum s3 + 1) (length (nodeMap s3)))"
    by blast
  from kn have "nodeMap s \<noteq> []"
    by auto
  with s'(8) have av: "curAverageNum s' = average (curTotalNum s + 1) (length (nodeMap s))"
    by (simp add: nm3 nm2 ct3 fr)
  from s'(7) have all: "\<forall>m. nodeFreq s' m =
              (if agingDue s \<and> m \<in> snd ` set (nodeMap s)
               then max 1 ((if m = n then nodeFreq s n + 1 else nodeFreq s m) -
                           int_div (maxAverageNum s) 2)
               else (if m = n then nodeFreq s n + 1 else nodeFreq s m))"
    unfolding due nf3 nf2all nm3 nm2 mx3 mx2 .
  from se3 s'(3) have se: "sameEntries s s'" by (rule sameEntries_trans)
  have "inv s'" if "inv s"
  proof -
    from that have "1 \<le> minFreq s" "minOK s" "capacity s = 0 \<longrightarrow> nodeMap s = []"
      by (simp_all add: inv_def)
    with se have "capacity s' = 0 \<longrightarrow> nodeMap s' = []" "1 \<le> minFreq s3" "minOK s3"
      using m3 mk3 by (simp_all add: sameEntries_def)
    with s' show ?thesis by (simp add: inv_def)
  qed
  moreover from s'(7) nin have "nodeFreq s' n =
             (if agingDue s then max 1 (nodeFreq s n + 1 - int_div (maxAverageNum s) 2)
              else nodeFreq s n + 1)"
    by (simp add: due nf3 nf2 mx3 mx2)
  ultimately show ?thesis
    using g s'(1,2,4) se av all by (simp add: ct3 fr)
qed

section \<open>Insertion of a new entry\<close>

lemma update_absent: "map_of al k = None \<Longrightarrow> AList.update k v al = al @ [(k, v)]"
  by (induction al) (auto split: if_splits)

lemma inv0_insert:
  assumes i: "inv0 s" and k: "map_of (nodeMap s) k = None"
  shows "inv0 (addToFreqList (length (heap s))
           (s\<lparr>heap := heap s @ [\<lparr>freq = 1, key = k, val = v\<rparr>],
              nodeMap := AList.update k (length (heap s)) (nodeMap s)\<rparr>))"
proof -
  define n where "n = length (heap s)"
  define s2 where "s2 = s\<lparr>heap := heap s @ [\<lparr>freq = 1, key = k, val = v\<rparr>],
              nodeMap := AList.update k n (nodeMap s)\<rparr>"
  define s3 where "s3 = addToFreqList n s2"
  have nm: "nodeMap s3 = nodeMap s @ [(k, n)]"
    by (simp add: s3_def s2_def update_absent [OF k])
  have len: "length (heap s3) = Suc n"
    by (simp add: s3_def s2_def n_def)
  have nfn: "nodeFreq s3 n = 1" and kyn: "key (heap s3 ! n) = k"
    by (simp_all add: s3_def s2_def n_def nodeFreq_def)
  have nfo: "\<And>m. m < n \<Longrightarrow> nodeFreq s3 m = nodeFreq s m"
    and kyo: "\<And>m. m < n \<Longrightarrow> key (heap s3 ! m) = key (heap s ! m)"
    by (simp_all add: s3_def s2_def n_def nodeFreq_def nth_append)
  have "nodeFreq s2 n = 1"
    by (simp add: s2_def n_def nodeFreq_def)
  then have mo: "\<And>g. map_of (freqToFreqList s3) g =
      (if g = 1 then Some (case map_of (freqToFreqList s) 1 of None \<Rightarrow> [n] | Some b \<Rightarrow> b @ [n])
       else map_of (freqToFreqList s) g)"
    by (simp add: s3_def map_of_addToFreqList) (simp add: s2_def)
  have old: "\<And>k' m. (k', m) \<in> set (nodeMap s) \<Longrightarrow>
      m < n \<and> key (heap s ! m) = k' \<and>
      (\<exists>b. map_of (freqToFreqList s) (nodeFreq s m) = Some b \<and> m \<in> set b)"
    using i unfolding inv0_def n_def by blast
  have oldb: "\<And>g b. map_of (freqToFreqList s) g = Some b \<Longrightarrow>
      1 \<le> g \<and> distinct b \<and> (\<forall>m \<in> set b. m < n \<and> nodeFreq s m = g)"
    using i unfolding inv0_def n_def by blast
  have "k \<notin> fst ` set (nodeMap s)"
    using k by (simp add: map_of_eq_None_iff)
  moreover have "n \<notin> snd ` set (nodeMap s)"
    using old by fastforce
  ultimately have a: "distinct (map fst (nodeMap s3))" "distinct (map snd (nodeMap s3))"
    using i by (simp_all add: nm inv0_def)
  have b: "\<forall>k' m. (k', m) \<in> set (nodeMap s3) \<longrightarrow>
        m < length (heap s3) \<and> key (heap s3 ! m) = k' \<and>
        (\<exists>b. map_of (freqToFreqList s3) (nodeFreq s3 m) = Some b \<and> m \<in> set b)"
  proof (intro allI impI)
    fix k' m assume "(k', m) \<in> set (nodeMap s3)"
    then consider "(k', m) \<in> set (nodeMap s)" | "k' = k" "m = n"
      by (auto simp: nm)
    then show "m < length (heap s3) \<and> key (heap s3 ! m) = k' \<and>
        (\<exists>b. map_of (freqToFreqList s3) (nodeFreq s3 m) = Some b \<and> m \<in> set b)"
    proof cases
      case 1
      from old [OF 1] obtain b0 where m: "m < n" "key (heap s ! m) = k'"
        "map_of (freqToFreqList s) (nodeFreq s m) = Some b0" "m \<in> set b0"
        by blast
      then show ?thesis
        by (auto simp: len nfo kyo mo)
    next
      case 2
      then show ?thesis
        by (simp add: len nfn kyn mo split: option.splits)
    qed
  qed
  have c: "\<forall>f b. map_of (freqToFreqList s3) f = Some b \<longrightarrow>
        1 \<le> f \<and> distinct b \<and> (\<forall>m \<in> set b. m < length (heap s3) \<and> nodeFreq s3 m = f)"
  proof (intro allI impI)
    fix g b assume gb: "map_of (freqToFreqList s3) g = Some b"
    show "1 \<le> g \<and> distinct b \<and> (\<forall>m \<in> set b. m < length (heap s3) \<and> nodeFreq s3 m = g)"
    proof (cases "g = 1")
      case True
      show ?thesis
      proof (cases "map_of (freqToFreqList s) 1")
        case None
        with gb True have "b = [n]" by (simp add: mo)
        then show ?thesis using True by (simp add: len nfn)
      next
        case (Some b0)
        with gb True have "b = b0 @ [n]" by (simp add: mo)
        then show ?thesis using True oldb [OF Some]
          by (auto simp: len nfn nfo)
      qed
    next
      case False
      with gb have "map_of (freqToFreqList s) g = Some b" by (simp add: mo)
      from oldb [OF this] show ?thesis
        by (auto simp: len nfo)
    qed
  qed
  have d: "\<forall>m < length (heap s3). 1 \<le> nodeFreq s3 m"
  proof (intro allI impI)
    fix m assume "m < length (heap s3)"
    then have "m < n \<or> m = n" by (auto simp: len)
    then consider "m < n" | "m = n" by blast
    then show "1 \<le> nodeFreq s3 m"
    proof cases
      case 1
      with i show ?thesis by (simp add: nfo inv0_def n_def)
    next
      case 2
      then show ?thesis by (simp add: nfn)
    qed
  qed
  have e: "nodeMap s3 \<noteq> [] \<longrightarrow> map_of (freqToFreqList s3) 1 \<noteq> None"
    by (simp add: mo)
  have "inv0 s3"
    unfolding inv0_def by (intro conjI a b c d e)
  then show ?thesis
    by (simp only: s3_def s2_def n_def)
qed

lemma putInternal_ok:
  assumes i: "inv s" and k: "map_of (nodeMap s) k = None" and c: "capacity s \<noteq> 0"
  shows "\<exists>s' n. putInternal k v s = Some s' \<and> inv s' \<and>
           map_of (nodeMap s') k = Some n \<and> val (heap s' ! n) = v \<and>
           capacity s' = capacity s \<and> maxAverageNum s' = maxAverageNum s"
proof -
  from i have i0: "inv0 s" and m1: "1 \<le> minFreq s" and mk: "minOK s"
    by (simp_all add: inv_def)
  have "\<exists>s1. (if atCapacity s then kickOut s else Some s) = Some s1 \<and> inv0 s1 \<and>
          map_of (nodeMap s1) k = None \<and> minFreq s1 = minFreq s \<and>
          capacity s1 = capacity s \<and> maxAverageNum s1 = maxAverageNum s"
  proof (cases "atCapacity s")
    case True
    with c have "nodeMap s \<noteq> []"
      by (auto simp: atCapacity_def)
    from kickOut_ok [OF i0 mk this] obtain s1 kk where
      "kickOut s = Some s1" "inv0 s1" "nodeMap s1 = AList.delete kk (nodeMap s)"
      "minFreq s1 = minFreq s" "capacity s1 = capacity s" "maxAverageNum s1 = maxAverageNum s"
      by blast
    with True k show ?thesis
      by (simp add: delete_conv)
  next
    case False
    with i0 k show ?thesis by simp
  qed
  then obtain s1 where s1: "(if atCapacity s then kickOut s else Some s) = Some s1"
    "inv0 s1" "map_of (nodeMap s1) k = None" "minFreq s1 = minFreq s"
    "capacity s1 = capacity s" "maxAverageNum s1 = maxAverageNum s"
    by blast
  define n where "n = length (heap s1)"
  define s3 where "s3 = addToFreqList n
           (s1\<lparr>heap := heap s1 @ [\<lparr>freq = 1, key = k, val = v\<rparr>],
              nodeMap := AList.update k n (nodeMap s1)\<rparr>)"
  have i3: "inv0 s3"
    unfolding s3_def n_def by (rule inv0_insert [OF s1(2,3)])
  have f3: "map_of (nodeMap s3) k = Some n" "val (heap s3 ! n) = v" "minFreq s3 = minFreq s"
    "capacity s3 = capacity s" "maxAverageNum s3 = maxAverageNum s"
    by (simp_all add: s3_def update_conv n_def s1)
  from addFreqNum_ok [OF i3] obtain s4 where s4:
    "addFreqNum s3 = Some s4" "inv0 s4" "sameEntries s3 s4"
    "1 \<le> minFreq s3 \<longrightarrow> 1 \<le> minFreq s4"
    by blast
  define s' where "s' = s4\<lparr>minFreq := min (minFreq s4) 1\<rparr>"
  have p: "putInternal k v s = Some s'"
    using s1(1) s4(1) by (simp add: putInternal_def Let_def n_def s3_def s'_def)
  from s4(3) f3 have f4: "map_of (nodeMap s4) k = Some n" "val (heap s4 ! n) = v"
    "capacity s4 = capacity s" "maxAverageNum s4 = maxAverageNum s"
    by (simp_all add: sameEntries_def)
  from s4(4) m1 have "min (minFreq s4) 1 = 1"
    by (simp add: f3)
  then have ms: "minFreq s' = 1"
    by (simp add: s'_def)
  have i': "inv0 s'"
    using s4(2) by (simp add: s'_def)
  have nm': "nodeMap s' = nodeMap s4" "freqToFreqList s' = freqToFreqList s4"
    "heap s' = heap s4" "capacity s' = capacity s4" "maxAverageNum s' = maxAverageNum s4"
    by (simp_all add: s'_def)
  from f4(1) have "nodeMap s4 \<noteq> []" by auto
  with s4(2) have "map_of (freqToFreqList s4) 1 \<noteq> None"
    by (simp add: inv0_def)
  then have "minOK s'"
    by (simp add: minOK_def ms nm')
  with i' ms c have "inv s'"
    by (simp add: inv_def nm' f4)
  with p f4 show ?thesis
    by (simp add: nm')
qed

section \<open>The public operations\<close>

lemma setVal_fields [simp]:
  "nodeMap (setVal n v s) = nodeMap s"
  "freqToFreqList (setVal n v s) = freqToFreqList s"
  "capacity (setVal n v s) = capacity s"
  "minFreq (setVal n v s) = minFreq s"
  "maxAverageNum (setVal n v s) = maxAverageNum s"
  "curAverageNum (setVal n v s) = curAverageNum s"
  "curTotalNum (setVal n v s) = curTotalNum s"
  "length (heap (setVal n v s)) = length (heap s)"
  by (simp_all add: setVal_def)

lemma heap_setVal:
  "nodeFreq (setVal n v s) m = nodeFreq s m"
  "key (heap (setVal n v s) ! m) = key (heap s ! m)"
  "val (heap (setVal n v s) ! m) = (if m = n \<and> n < length (heap s) then v else val (heap s ! m))"
  by (cases "n < length (heap s)"; cases "m = n";
      simp add: setVal_def nodeFreq_def nth_list_update list_update_beyond)+

lemma inv_setVal [simp]: "inv (setVal n v s) = inv s"
proof -
  have "inv0 (setVal n v s) = inv0 s"
    by (rule inv0_cong) (simp_all add: heap_setVal)
  then show ?thesis
    by (simp add: inv_def minOK_def)
qed

lemma agingDue_setVal [simp]: "agingDue (setVal n v s) = agingDue s"
  by (rule agingDue_cong) simp_all

lemma put_present:
  assumes i: "inv s" and k: "map_of (nodeMap s) k = Some n"
  shows "\<exists>s'. put k v s = Some s' \<and> inv s' \<and> nodeMap s' = nodeMap s \<and>
           capacity s' = capacity s \<and> maxAverageNum s' = maxAverageNum s \<and>
           val (heap s' ! n) = v \<and> curTotalNum s' = curTotalNum s + 1 \<and>
           (\<forall>m. m \<noteq> n \<longrightarrow> val (heap s' ! m) = val (heap s ! m)) \<and>
           nodeFreq s' n =
             (if agingDue s then max 1 (nodeFreq s n + 1 - int_div (maxAverageNum s) 2)
              else nodeFreq s n + 1)"
proof -
  from k have kn: "(k, n) \<in> set (nodeMap s)"
    by (rule map_of_SomeD)
  with i have n: "n < length (heap s)" and c: "capacity s \<noteq> 0"
    by (auto simp: inv_def inv0_def)
  from kn have kn': "(k, n) \<in> set (nodeMap (setVal n v s))"
    by simp
  from i have "inv (setVal n v s)"
    by simp
  then have "inv0 (setVal n v s)"
    by (simp add: inv_def)
  from getInternal_ok [OF this kn'] \<open>inv (setVal n v s)\<close> obtain s' where s':
    "getInternal n (setVal n v s) = Some (val (heap (setVal n v s) ! n), s')" "inv s'"
    "sameEntries (setVal n v s) s'" "curTotalNum s' = curTotalNum (setVal n v s) + 1"
    "nodeFreq s' n =
       (if agingDue (setVal n v s)
        then max 1 (nodeFreq (setVal n v s) n + 1 - int_div (maxAverageNum (setVal n v s)) 2)
        else nodeFreq (setVal n v s) n + 1)"
    by blast
  have p: "put k v s = Some s'"
    using c k s'(1) by (simp add: put_def)
  from s'(3) n have "nodeMap s' = nodeMap s" "capacity s' = capacity s"
    "maxAverageNum s' = maxAverageNum s" "val (heap s' ! n) = v"
    "\<forall>m. m \<noteq> n \<longrightarrow> val (heap s' ! m) = val (heap s ! m)"
    by (simp_all add: sameEntries_def heap_setVal)
  with p s'(2,4,5) show ?thesis
    by (simp add: heap_setVal)
qed

lemma put_ok:
  assumes i: "inv s"
  shows "\<exists>s'. put k v s = Some s' \<and> inv s' \<and>
           capacity s' = capacity s \<and> maxAverageNum s' = maxAverageNum s \<and>
           (capacity s \<noteq> 0 \<longrightarrow> (\<exists>n. map_of (nodeMap s') k = Some n \<and> val (heap s' ! n) = v))"
proof (cases "capacity s = 0")
  case True
  with i show ?thesis by (simp add: put_def)
next
  case c: False
  show ?thesis
  proof (cases "map_of (nodeMap s) k")
    case None
    from putInternal_ok [OF i None c, of v] None c show ?thesis
      by (auto simp: put_def)
  next
    case (Some n)
    from put_present [OF i Some, of v] Some show ?thesis
      by auto
  qed
qed

lemma get_ok:
  assumes i: "inv s"
  shows "\<exists>s'. get k v0 s =
             Some (map_of (nodeMap s) k \<noteq> None,
                   (case map_of (nodeMap s) k of None \<Rightarrow> v0 | Some n \<Rightarrow> val (heap s ! n)), s') \<and>
           inv s' \<and> sameEntries s s' \<and> (map_of (nodeMap s) k = None \<longrightarrow> s' = s)"
proof (cases "map_of (nodeMap s) k")
  case None
  with i show ?thesis by (simp add: get_def)
next
  case (Some n)
  then have "(k, n) \<in> set (nodeMap s)"
    by (rule map_of_SomeD)
  moreover from i have "inv0 s"
    by (simp add: inv_def)
  ultimately show ?thesis
    using getInternal_ok [of s k n] Some i by (auto simp: get_def)
qed

lemma inv_new: "inv (ILfuCache_new c m)"
  by (simp add: inv_def inv0_def minOK_def ILfuCache_new_def INT8_MAX_def)

lemma inv_purge: "inv s \<Longrightarrow> inv (purge s)"
  by (simp add: inv_def inv0_def minOK_def purge_def nodeFreq_def)

lemma step_ok:
  assumes "inv s"
  shows "\<exists>s'. step x s = Some s' \<and> inv s' \<and>
           capacity s' = capacity s \<and> maxAverageNum s' = maxAverageNum s"
proof (cases x)
  case (Put k v)
  with put_ok [OF assms, of k v] show ?thesis by auto
next
  case (Get k v0)
  with get_ok [OF assms, of k v0] show ?thesis by (auto simp: sameEntries_def)
next
  case Purge
  with inv_purge [OF assms] show ?thesis by (simp add: purge_def)
qed

lemma run_ok:
  assumes "inv s"
  shows "\<exists>s'. run xs s = Some s' \<and> inv s' \<and>
           capacity s' = capacity s \<and> maxAverageNum s' = maxAverageNum s"
  using assms
proof (induction xs arbitrary: s)
  case Nil
  then show ?case by simp
next
  case (Cons x xs)
  from step_ok [OF Cons.prems, of x] obtain s1 where s1:
    "step x s = Some s1" "inv s1" "capacity s1 = capacity s" "maxAverageNum s1 = maxAverageNum s"
    by blast
  from Cons.IH [OF s1(2)] s1 show ?case
    by auto
qed

section \<open>Reachable states are well formed\<close>

lemma new_fields [simp]:
  "capacity (ILfuCache_new c m) = c"
  "maxAverageNum (ILfuCache_new c m) = m"
  "nodeMap (ILfuCache_new c m) = []"
  by (simp_all add: ILfuCache_new_def)

lemma put_capacity_0: "capacity s = 0 \<Longrightarrow> put k v s = Some s"
  by (simp add: put_def)

lemma get_new: "get k v0 (ILfuCache_new c m) = Some (False, v0, ILfuCache_new c m)"
  by (simp add: get_def)

lemma step_new_0: "step x (ILfuCache_new 0 m) = Some (ILfuCache_new 0 m)"
proof (cases x)
  case (Put k v)
  then show ?thesis by (simp add: put_capacity_0)
next
  case (Get k v0)
  then show ?thesis by (simp add: get_new)
next
  case Purge
  then show ?thesis by (simp add: purge_def ILfuCache_new_def)
qed

lemma run_new:
  assumes "run xs (ILfuCache_new c m) = Some s"
  shows "inv s" "capacity s = c" "maxAverageNum s = m"
  using run_ok [OF inv_new, of xs c m] assms by (auto simp: ILfuCache_new_def)

lemma reachable_inv: "reachable s \<Longrightarrow> inv s"
  using run_new(1) by (auto simp: reachable_def)

lemma run_append:
  "run (xs @ ys) s = (case run xs s of None \<Rightarrow> None | Some s' \<Rightarrow> run ys s')"
  by (induction xs arbitrary: s) (auto split: option.splits)

lemma run_aged:
  "run (Put 1 1 # replicate 126 (Get 1 0)) (ILfuCache_new 1 1) = Some agedCache"
  by code_simp

lemma run_examples:
  "run [Put 1 1] (ILfuCache_new 1 10) = Some cacheOneEntry"
  "run [Put 1 1, Put 2 2] (ILfuCache_new 2 10) = Some cacheTwoEntries"
  "run [Put 1 10, Put 2 20, Get 1 0, Get 1 0, Get 1 0] (ILfuCache_new 2 2) = Some cacheBeforeAging"
  "run [Put 1 1, Put 1 2] (ILfuCache_new 1 2) = Some cacheTwoPuts"
  by (code_simp, code_simp, code_simp, code_simp)

section \<open>Round trip\<close>

lemma put_get:
  assumes "inv s" "capacity s \<noteq> 0"
  shows "\<exists>s' s''. put k v s = Some s' \<and> get k v0 s' = Some (True, v, s'')"
proof -
  from put_ok [OF assms(1), of k v] assms(2) obtain s' n where s':
    "put k v s = Some s'" "inv s'" "map_of (nodeMap s') k = Some n" "val (heap s' ! n) = v"
    by blast
  from get_ok [OF s'(2), of k v0] s'(1,3,4) show ?thesis
    by auto
qed

text \<open>
  Claim C1. In every state of an \<open>ILfuCache\<close> of capacity at least 1 reached by completed
  operations, \<open>put(k, v)\<close> followed at once by \<open>get(k)\<close> returns \<open>(v, true)\<close>; neither call
  dereferences a missing list. The same holds for a \<open>KHashLfuCache\<close> with a positive number
  of slices, each reachable and of capacity at least 1: both calls select the slice
  \<open>hash k mod sliceNum\<close>, the hash being a function of the key.
\<close>

theorem put_then_get:
  assumes "run xs (ILfuCache_new c m) = Some s" and "1 \<le> c"
    and "0 < sliceNum h" and "length (lfuSliceCaches h) = sliceNum h"
    and "\<forall>sh \<in> set (lfuSliceCaches h). reachable sh \<and> 1 \<le> capacity sh"
  shows "(\<exists>s' s''. put k v s = Some s' \<and> get k v0 s' = Some (True, v, s'')) \<and>
         (\<exists>h' h''. KHash_put hash k v h = Some h' \<and>
                    KHash_get hash k v0 h' = Some (True, v, h''))"
proof
  from run_new [OF assms(1)] assms(2) have "inv s" "capacity s \<noteq> 0"
    by auto
  then show "\<exists>s' s''. put k v s = Some s' \<and> get k v0 s' = Some (True, v, s'')"
    by (rule put_get)
next
  define i where "i = hash k mod sliceNum h"
  from assms(3,4) have i: "i < length (lfuSliceCaches h)"
    by (simp add: i_def)
  then have "lfuSliceCaches h ! i \<in> set (lfuSliceCaches h)"
    by simp
  with assms(5) have "reachable (lfuSliceCaches h ! i)" "1 \<le> capacity (lfuSliceCaches h ! i)"
    by auto
  then have "inv (lfuSliceCaches h ! i)" "capacity (lfuSliceCaches h ! i) \<noteq> 0"
    using run_new(1) by (auto simp: reachable_def)
  from put_get [OF this, of k v v0] obtain s' s'' where s':
    "put k v (lfuSliceCaches h ! i) = Some s'" "get k v0 s' = Some (True, v, s'')"
    by blast
  define h' where "h' = h\<lparr>lfuSliceCaches := (lfuSliceCaches h)[i := s']\<rparr>"
  have p: "KHash_put hash k v h = Some h'"
    using i assms(3) s'(1) by (simp add: KHash_put_def Let_def i_def [symmetric] h'_def)
  have "sliceNum h' = sliceNum h" "length (lfuSliceCaches h') = length (lfuSliceCaches h)"
    "lfuSliceCaches h' ! i = s'"
    using i by (simp_all add: h'_def)
  then have "KHash_get hash k v0 h' =
      Some (True, v, h'\<lparr>lfuSliceCaches := (lfuSliceCaches h')[i := s'']\<rparr>)"
    using i assms(3) s'(2) by (simp add: KHash_get_def Let_def i_def [symmetric])
  with p show "\<exists>h' h''. KHash_put hash k v h = Some h' \<and>
                    KHash_get hash k v0 h' = Some (True, v, h'')"
    by blast
qed

theorem put_then_get_witness:
  "(\<exists>s' s''. put 2 5 cacheOneEntry = Some s' \<and> get 2 0 s' = Some (True, 5, s'')) \<and>
   (\<exists>h' h''. KHash_put (\<lambda>k. k) 2 5 shardedExample = Some h' \<and>
              KHash_get (\<lambda>k. k) 2 0 h' = Some (True, 5, h''))"
proof -
  have r: "run [Put 1 1] (ILfuCache_new 1 10) = Some cacheOneEntry"
    by (rule run_examples)
  have c: "(1::int) \<le> 1"
    by simp
  have n: "0 < sliceNum shardedExample"
    "length (lfuSliceCaches shardedExample) = sliceNum shardedExample"
    by (simp_all add: shardedExample_def)
  have "run [] (ILfuCache_new 1 10 :: (nat, int) ILfuCache) = Some (ILfuCache_new 1 10)"
    by simp
  then have "reachable (ILfuCache_new 1 10 :: (nat, int) ILfuCache)"
    unfolding reachable_def by blast
  then have a: "\<forall>sh \<in> set (lfuSliceCaches shardedExample). reachable sh \<and> 1 \<le> capacity sh"
    by (simp add: shardedExample_def)
  from put_then_get [OF r c n a, of 2 5 0 "\<lambda>k. k"] show ?thesis .
qed

section \<open>Capacity\<close>

text \<open>
  Claim C2 (the code does not keep the bound). On a cache of capacity 1 with
  \<open>maxAverageNum = 1\<close>, \<open>put(1, 1)\<close>, 126 calls of \<open>get(1)\<close> and \<open>put(2, 2)\<close> leave two keys
  in the index: after the aging pass of the last \<open>get\<close>, \<open>updateMinFreq\<close> takes the
  frequency 127 of the only entry for its marker \<open>INT8_MAX\<close> and sets \<open>minFreq_\<close> to 1, so
  that \<open>kickOut\<close> takes the sentinel of the empty list of frequency 1 and evicts nothing.
\<close>

theorem capacity_exceeded:
  "map_option (\<lambda>s. (capacity s, map fst (nodeMap s)))
     (run ((Put 1 1 # replicate 126 (Get 1 0)) @ [Put 2 2])
        (ILfuCache_new 1 1 :: (nat, int) ILfuCache)) =
   Some (1, [1, 2])"
  unfolding run_append run_aged by code_simp

section \<open>Eviction order\<close>





section \<open>The minimum frequency\<close>

text \<open>
  Claim C4 (the code does not keep the invariant). On a cache of capacity 1 with
  \<open>maxAverageNum = 1\<close>, after \<open>put(1, 1)\<close> and 126 calls of \<open>get(1)\<close> the cache holds key 1
  at frequency 127, the smallest frequency with a non-empty list is 127, and \<open>minFreq_\<close> is
  1: the aging pass of the last \<open>get\<close> ran \<open>updateMinFreq\<close>, whose scan starts from
  \<open>INT8_MAX = 127\<close> and takes a result of 127 for "no list found".
\<close>

theorem minFreq_stale:
  "map_option (\<lambda>s. (minFreq s, minNonEmptyFreq s, map fst (nodeMap s)))
     (run (Put 1 1 # replicate 126 (Get 1 0)) (ILfuCache_new 1 1 :: (nat, int) ILfuCache)) =
   Some (1, Some 127, [1])"
  unfolding run_aged by code_simp

section \<open>The running total\<close>

text \<open>
  Claim C5 (the code does not keep the invariant). On a cache of capacity 1 with
  \<open>maxAverageNum = 2\<close>, after \<open>put(1, 1)\<close> and two calls of \<open>get(1)\<close> the running total is 3
  and the only live entry has frequency 2: the aging pass lowered the frequency and left
  \<open>curTotalNum_\<close> as it was.
\<close>

theorem total_after_aging:
  "map_option (\<lambda>s. (curTotalNum s, liveFreqSum s))
     (run [Put 1 1, Get 1 0, Get 1 0] (ILfuCache_new 1 2 :: (nat, int) ILfuCache)) = Some (3, 2)"
  by code_simp

section \<open>The aging pass\<close>

lemma get_ok0:
  assumes "inv0 s"
  shows "\<exists>s'. get k v0 s =
             Some (map_of (nodeMap s) k \<noteq> None,
                   (case map_of (nodeMap s) k of None \<Rightarrow> v0 | Some n \<Rightarrow> val (heap s ! n)), s')"
proof (cases "map_of (nodeMap s) k")
  case None
  then show ?thesis by (simp add: get_def)
next
  case (Some n)
  then have "(k, n) \<in> set (nodeMap s)"
    by (rule map_of_SomeD)
  from getInternal_ok [OF assms this] Some show ?thesis
    by (auto simp: get_def)
qed

lemma int_div_2_nonneg: "0 \<le> m \<Longrightarrow> 0 \<le> int_div m 2"
  by (simp add: int_div_def sgn_if)

lemma inv0_linkedOnce:
  assumes "inv0 s" "(k, n) \<in> set (nodeMap s)"
  shows "linkedOnce s n"
proof -
  from assms have "\<exists>b. map_of (freqToFreqList s) (nodeFreq s n) = Some b \<and> n \<in> set b"
    unfolding inv0_def by blast
  moreover have "\<forall>f b. map_of (freqToFreqList s) f = Some b \<longrightarrow>
        distinct b \<and> (n \<in> set b \<longrightarrow> f = nodeFreq s n)"
  proof (intro allI impI)
    fix f b assume "map_of (freqToFreqList s) f = Some b"
    with assms(1) have "distinct b" "\<forall>m \<in> set b. nodeFreq s m = f"
      unfolding inv0_def by blast+
    then show "distinct b \<and> (n \<in> set b \<longrightarrow> f = nodeFreq s n)"
      by auto
  qed
  ultimately show ?thesis
    unfolding linkedOnce_def by (rule conjI)
qed

lemma pass_aged:
  assumes i: "inv0 s" and i1: "inv0 s1" and se: "sameEntries s s1"
    and nf: "\<forall>m. nodeFreq s1 m =
              (if m \<in> snd ` set (nodeMap s)
               then max 1 (nodeFreq s m - int_div (maxAverageNum s) 2) else nodeFreq s m)"
    and mf: "\<forall>b. nodeMap s \<noteq> [] \<and> map_of (freqToFreqList s1) 1 = Some b \<and> b \<noteq> [] \<longrightarrow> minFreq s1 = 1"
  shows "aged s s1"
proof -
  from se have nm: "nodeMap s1 = nodeMap s"
    and vl: "\<And>n. val (heap s1 ! n) = val (heap s ! n)"
    by (simp_all add: sameEntries_def)
  have lk: "linkedOnce s1 n" if "(k, n) \<in> set (nodeMap s)" for k n
    using inv0_linkedOnce [OF i1] that by (simp add: nm)
  have a: "\<forall>k n. (k, n) \<in> set (nodeMap s) \<longrightarrow>
        nodeFreq s1 n = max 1 (nodeFreq s n - int_div (maxAverageNum s) 2) \<and>
        val (heap s1 ! n) = val (heap s ! n) \<and> linkedOnce s1 n"
  proof (intro allI impI)
    fix k n assume kn: "(k, n) \<in> set (nodeMap s)"
    then have "n \<in> snd ` set (nodeMap s)" by force
    with nf lk [OF kn]
    show "nodeFreq s1 n = max 1 (nodeFreq s n - int_div (maxAverageNum s) 2) \<and>
        val (heap s1 ! n) = val (heap s ! n) \<and> linkedOnce s1 n"
      by (simp add: vl)
  qed
  have b: "\<forall>k v0. get k v0 s \<noteq> None \<and>
        map_option (\<lambda>(b, v, r). (b, v)) (get k v0 s1) =
        map_option (\<lambda>(b, v, r). (b, v)) (get k v0 s)"
  proof (intro allI)
    fix k v0
    from get_ok0 [OF i, of k v0] get_ok0 [OF i1, of k v0]
    show "get k v0 s \<noteq> None \<and>
           map_option (\<lambda>(b, v, r). (b, v)) (get k v0 s1) =
           map_option (\<lambda>(b, v, r). (b, v)) (get k v0 s)"
      by (auto simp: nm vl split: option.splits)
  qed
  have c: "1 \<le> maxAverageNum s \<longrightarrow>
        (\<forall>k n. (k, n) \<in> set (nodeMap s) \<and> nodeFreq s n = 1 \<longrightarrow>
           nodeFreq s1 n = 1 \<and> minFreq s1 = 1)"
  proof (intro allI impI)
    fix k n assume m: "1 \<le> maxAverageNum s" and "(k, n) \<in> set (nodeMap s) \<and> nodeFreq s n = 1"
    then have kn: "(k, n) \<in> set (nodeMap s)" and f: "nodeFreq s n = 1" by simp_all
    from m have "0 \<le> int_div (maxAverageNum s) 2"
      by (simp add: int_div_2_nonneg)
    with a kn f have f': "nodeFreq s1 n = 1"
      by (simp add: max_def)
    from lk [OF kn] f' obtain b where "map_of (freqToFreqList s1) 1 = Some b" "n \<in> set b"
      by (auto simp: linkedOnce_def)
    moreover from kn have "nodeMap s \<noteq> []" by auto
    ultimately have "minFreq s1 = 1"
      using mf by auto
    with f' show "nodeFreq s1 n = 1 \<and> minFreq s1 = 1" by simp
  qed
  show ?thesis
    unfolding aged_def by (intro conjI nm a b c)
qed

lemma handleOverMaxAverageNum_aged:
  assumes "inv0 s"
  shows "\<exists>s'. handleOverMaxAverageNum s = Some s' \<and> aged s s'"
proof -
  from handleOverMaxAverageNum_ok [OF assms] obtain s' where s':
    "handleOverMaxAverageNum s = Some s'" "inv0 s'" "sameEntries s s'"
    "\<forall>m. nodeFreq s' m =
              (if m \<in> snd ` set (nodeMap s)
               then max 1 (nodeFreq s m - int_div (maxAverageNum s) 2) else nodeFreq s m)"
    "\<forall>b. nodeMap s \<noteq> [] \<and> map_of (freqToFreqList s') 1 = Some b \<and> b \<noteq> [] \<longrightarrow> minFreq s' = 1"
    by blast
  from pass_aged [OF assms s'(2-5)] have "aged s s'" .
  with s'(1) show ?thesis
    by (intro exI [of _ s']) simp
qed

lemma agingLoop_aged:
  assumes i: "inv0 s" and d: "distinct ns" and ns: "set ns = snd ` set (nodeMap s)"
  shows "\<exists>s1. agingLoop ns s = Some s1 \<and> aged s (updateMinFreq s1)"
proof -
  from agingLoop_any [OF i d ns] obtain s1 where s1:
    "agingLoop ns s = Some s1" "inv0 s1" "sameEntries s s1"
    "\<forall>m. nodeFreq s1 m =
              (if m \<in> snd ` set (nodeMap s)
               then max 1 (nodeFreq s m - int_div (maxAverageNum s) 2) else nodeFreq s m)"
    by blast
  have "inv0 (updateMinFreq s1)"
    using s1(2) by simp
  moreover have "sameEntries s (updateMinFreq s1)"
    using s1(3) sameEntries_updateMinFreq sameEntries_trans by blast
  moreover have "\<forall>m. nodeFreq (updateMinFreq s1) m =
              (if m \<in> snd ` set (nodeMap s)
               then max 1 (nodeFreq s m - int_div (maxAverageNum s) 2) else nodeFreq s m)"
    using s1(4) by simp
  moreover have "\<forall>b. nodeMap s \<noteq> [] \<and> map_of (freqToFreqList (updateMinFreq s1)) 1 = Some b \<and> b \<noteq> []
      \<longrightarrow> minFreq (updateMinFreq s1) = 1"
    using updateMinFreq_one [OF s1(2)] by simp
  ultimately have "aged s (updateMinFreq s1)"
    by (rule pass_aged [OF i])
  with s1(1) show ?thesis
    by (intro exI [of _ s1]) simp
qed

lemma same_node_same_key:
  assumes "distinct (map snd al)" "(a, n) \<in> set al" "(b, n) \<in> set al"
  shows "a = b"
proof -
  from assms(1) have "inj_on snd (set al)"
    by (simp add: distinct_map)
  from inj_onD [OF this _ assms(2,3)] show ?thesis
    by simp
qed

lemma same_key_same_node:
  assumes "distinct (map fst al)" "(k, a) \<in> set al" "(k, b) \<in> set al"
  shows "a = b"
proof -
  from assms(1) have "inj_on fst (set al)"
    by (simp add: distinct_map)
  from inj_onD [OF this _ assms(2,3)] show ?thesis
    by simp
qed

lemma get_accessed:
  assumes i0: "inv0 s" and k: "map_of (nodeMap s) k = Some n"
  shows "\<exists>s'. get k v0 s = Some (True, val (heap s ! n), s') \<and> sameEntries s s' \<and>
           curTotalNum s' = curTotalNum s + 1 \<and> accessed k s s'"
proof -
  from k have kn: "(k, n) \<in> set (nodeMap s)"
    by (rule map_of_SomeD)
  then have ne: "nodeMap s \<noteq> []"
    by auto
  from getInternal_ok [OF i0 kn] obtain s' where s':
    "getInternal n s = Some (val (heap s ! n), s')" "inv0 s'" "sameEntries s s'"
    "curTotalNum s' = curTotalNum s + 1"
    "\<forall>m. nodeFreq s' m =
              (if agingDue s \<and> m \<in> snd ` set (nodeMap s)
               then max 1 ((if m = n then nodeFreq s n + 1 else nodeFreq s m) -
                           int_div (maxAverageNum s) 2)
               else (if m = n then nodeFreq s n + 1 else nodeFreq s m))"
    "curAverageNum s' = average (curTotalNum s + 1) (length (nodeMap s))"
    by blast
  from s'(3) have nm: "nodeMap s' = nodeMap s" and mx: "maxAverageNum s' = maxAverageNum s"
    by (simp_all add: sameEntries_def)
  have due: "agingDue s \<longleftrightarrow> maxAverageNum s' < curAverageNum s'"
    using ne by (simp add: agingDue_def s'(6) mx)
  have av: "curAverageNum s' = average (curTotalNum s') (length (nodeMap s'))"
    by (simp add: s'(4,6) nm)
  from i0 have d: "distinct (map fst (nodeMap s))" "distinct (map snd (nodeMap s))"
    by (simp_all add: inv0_def)
  have fr: "\<forall>k' n'. (k', n') \<in> set (nodeMap s') \<longrightarrow>
        linkedOnce s' n' \<and>
        nodeFreq s' n' =
          (let f = (if (k', n') \<in> set (nodeMap s)
                    then nodeFreq s n' + (if k' = k then 1 else 0) else 1)
           in if maxAverageNum s' < curAverageNum s'
              then max 1 (f - int_div (maxAverageNum s') 2) else f)"
  proof (intro allI impI)
    fix k' n' assume a: "(k', n') \<in> set (nodeMap s')"
    then have kn': "(k', n') \<in> set (nodeMap s)"
      by (simp add: nm)
    then have nin: "n' \<in> snd ` set (nodeMap s)"
      by force
    have e: "k' = k \<longleftrightarrow> n' = n"
      using same_node_same_key [OF d(2) kn] same_key_same_node [OF d(1) kn] kn' by blast
    have "(if n' = n then nodeFreq s n + 1 else nodeFreq s n') =
          nodeFreq s n' + (if k' = k then 1 else 0)"
      by (simp add: e)
    with s'(5) nin have "nodeFreq s' n' =
        (if agingDue s
         then max 1 (nodeFreq s n' + (if k' = k then 1 else 0) - int_div (maxAverageNum s) 2)
         else nodeFreq s n' + (if k' = k then 1 else 0))"
      by simp
    with inv0_linkedOnce [OF s'(2) a] kn'
    show "linkedOnce s' n' \<and>
        nodeFreq s' n' =
          (let f = (if (k', n') \<in> set (nodeMap s)
                    then nodeFreq s n' + (if k' = k then 1 else 0) else 1)
           in if maxAverageNum s' < curAverageNum s'
              then max 1 (f - int_div (maxAverageNum s') 2) else f)"
      by (simp add: Let_def due mx)
  qed
  have "accessed k s s'"
    unfolding accessed_def by (intro conjI av fr)
  moreover have "get k v0 s = Some (True, val (heap s ! n), s')"
    using k s'(1) by (simp add: get_def)
  ultimately show ?thesis
    using s'(3,4) by (intro exI [of _ s']) simp
qed

lemma accessed_cong:
  assumes "nodeMap s0 = nodeMap s" "\<And>m. nodeFreq s0 m = nodeFreq s m"
  shows "accessed k s0 s' = accessed k s s'"
  by (simp add: accessed_def assms)

lemma put_present_accessed:
  assumes i: "inv s" and k: "map_of (nodeMap s) k = Some n"
  shows "\<exists>s'. put k v s = Some s' \<and> nodeMap s' = nodeMap s \<and> val (heap s' ! n) = v \<and>
           (\<forall>m. m \<noteq> n \<longrightarrow> val (heap s' ! m) = val (heap s ! m)) \<and> accessed k s s'"
proof -
  from k have kn: "(k, n) \<in> set (nodeMap s)"
    by (rule map_of_SomeD)
  with i have n: "n < length (heap s)" and c: "capacity s \<noteq> 0"
    by (auto simp: inv_def inv0_def)
  define s0 where "s0 = setVal n v s"
  from i have "inv (setVal n v s)"
    by simp
  then have i0: "inv0 s0"
    by (simp add: s0_def inv_def)
  have k0: "map_of (nodeMap s0) k = Some n"
    using k by (simp add: s0_def)
  from get_accessed [OF i0 k0, of v] obtain s' where s':
    "get k v s0 = Some (True, val (heap s0 ! n), s')" "sameEntries s0 s'" "accessed k s0 s'"
    by blast
  from s'(1) k0 have "map_option snd (getInternal n s0) = Some s'"
    by (auto simp: get_def)
  then have p: "put k v s = Some s'"
    using c k by (simp add: put_def s0_def)
  have "accessed k s0 s' = accessed k s s'"
    by (rule accessed_cong) (simp_all add: s0_def heap_setVal)
  with s'(3) have a: "accessed k s s'"
    by simp
  from s'(2) n have "nodeMap s' = nodeMap s" "val (heap s' ! n) = v"
    "\<forall>m. m \<noteq> n \<longrightarrow> val (heap s' ! m) = val (heap s ! m)"
    by (simp_all add: sameEntries_def s0_def heap_setVal)
  with p a show ?thesis
    by (intro exI [of _ s']) simp
qed

lemma putInternal_accessed:
  assumes i: "inv s" and k: "map_of (nodeMap s) k = None" and c: "capacity s \<noteq> 0"
  shows "\<exists>s' n. putInternal k v s = Some s' \<and>
           map_of (nodeMap s') k = Some n \<and> val (heap s' ! n) = v \<and> accessed k s s' \<and>
           (\<forall>k' n'. (k', n') \<in> set (nodeMap s') \<and> k' \<noteq> k \<longrightarrow>
              (k', n') \<in> set (nodeMap s) \<and> val (heap s' ! n') = val (heap s ! n'))"
proof -
  from i have i0: "inv0 s" and m1: "1 \<le> minFreq s" and mk: "minOK s"
    by (simp_all add: inv_def)
  have "\<exists>s1. (if atCapacity s then kickOut s else Some s) = Some s1 \<and> inv0 s1 \<and>
          map_of (nodeMap s1) k = None \<and> heap s1 = heap s \<and>
          set (nodeMap s1) \<subseteq> set (nodeMap s) \<and> maxAverageNum s1 = maxAverageNum s"
  proof (cases "atCapacity s")
    case True
    with c have "nodeMap s \<noteq> []"
      by (auto simp: atCapacity_def)
    from kickOut_ok [OF i0 mk this] obtain s1 kk where s1:
      "kickOut s = Some s1" "inv0 s1" "heap s1 = heap s"
      "nodeMap s1 = AList.delete kk (nodeMap s)" "maxAverageNum s1 = maxAverageNum s"
      by blast
    have "set (nodeMap s1) \<subseteq> set (nodeMap s)"
      by (auto simp: s1(4) set_delete_iff)
    with True k s1 show ?thesis
      by (simp add: delete_conv)
  next
    case False
    with i0 k show ?thesis by simp
  qed
  then obtain s1 where s1: "(if atCapacity s then kickOut s else Some s) = Some s1"
    "inv0 s1" "map_of (nodeMap s1) k = None" "heap s1 = heap s"
    "set (nodeMap s1) \<subseteq> set (nodeMap s)" "maxAverageNum s1 = maxAverageNum s"
    by blast
  define n where "n = length (heap s1)"
  define s3 where "s3 = addToFreqList n
           (s1\<lparr>heap := heap s1 @ [\<lparr>freq = 1, key = k, val = v\<rparr>],
              nodeMap := AList.update k n (nodeMap s1)\<rparr>)"
  have i3: "inv0 s3"
    unfolding s3_def n_def by (rule inv0_insert [OF s1(2,3)])
  have nm3: "nodeMap s3 = nodeMap s1 @ [(k, n)]"
    by (simp add: s3_def update_absent [OF s1(3)])
  have f3: "nodeFreq s3 n = 1" "val (heap s3 ! n) = v" "maxAverageNum s3 = maxAverageNum s"
    by (simp_all add: s3_def n_def nodeFreq_def s1)
  have o3: "\<And>m. m < n \<Longrightarrow> nodeFreq s3 m = nodeFreq s m"
    "\<And>m. m < n \<Longrightarrow> val (heap s3 ! m) = val (heap s ! m)"
    by (simp_all add: s3_def n_def nodeFreq_def nth_append s1)
  from addFreqNum_ok [OF i3] obtain s4 where s4:
    "addFreqNum s3 = Some s4" "inv0 s4" "sameEntries s3 s4" "curTotalNum s4 = curTotalNum s3 + 1"
    "\<forall>m. nodeFreq s4 m =
              (if agingDue s3 \<and> m \<in> snd ` set (nodeMap s3)
               then max 1 (nodeFreq s3 m - int_div (maxAverageNum s3) 2) else nodeFreq s3 m)"
    "curAverageNum s4 =
             (if nodeMap s3 = [] then 0 else average (curTotalNum s3 + 1) (length (nodeMap s3)))"
    by blast
  define s' where "s' = s4\<lparr>minFreq := min (minFreq s4) 1\<rparr>"
  have p: "putInternal k v s = Some s'"
    using s1(1) s4(1) by (simp add: putInternal_def Let_def n_def s3_def s'_def)
  from s4(3) have e4: "nodeMap s4 = nodeMap s3" "maxAverageNum s4 = maxAverageNum s3"
    "\<And>m. val (heap s4 ! m) = val (heap s3 ! m)"
    by (simp_all add: sameEntries_def)
  have e': "nodeMap s' = nodeMap s3" "maxAverageNum s' = maxAverageNum s"
    "\<And>m. val (heap s' ! m) = val (heap s3 ! m)" "\<And>m. nodeFreq s' m = nodeFreq s4 m"
    "curAverageNum s' = curAverageNum s4" "curTotalNum s' = curTotalNum s4"
    by (simp_all add: s'_def e4 f3)
  have i': "inv0 s'"
    using s4(2) by (simp add: s'_def)
  have av: "curAverageNum s' = average (curTotalNum s') (length (nodeMap s'))"
    by (simp add: e' s4(4,6) nm3)
  have due: "agingDue s3 \<longleftrightarrow> maxAverageNum s' < curAverageNum s'"
    by (simp add: agingDue_def e' s4(6) nm3 f3)
  have old: "n' < n \<and> k' \<noteq> k \<and> (k', n') \<in> set (nodeMap s)"
    if "(k', n') \<in> set (nodeMap s1)" for k' n'
  proof -
    from that s1(5) have a: "(k', n') \<in> set (nodeMap s)"
      by auto
    with i0 have "n' < length (heap s)"
      unfolding inv0_def by blast
    moreover from k have "k \<notin> fst ` set (nodeMap s)"
      by (simp add: map_of_eq_None_iff)
    with a have "k' \<noteq> k"
      by force
    ultimately show ?thesis
      using a by (simp add: n_def s1(4))
  qed
  have new: "(k, n) \<notin> set (nodeMap s)"
  proof
    assume "(k, n) \<in> set (nodeMap s)"
    then have "\<exists>x. map_of (nodeMap s) k = Some x"
      by (rule weak_map_of_SomeI)
    with k show False
      by simp
  qed
  have fr: "\<forall>k' n'. (k', n') \<in> set (nodeMap s') \<longrightarrow>
        linkedOnce s' n' \<and>
        nodeFreq s' n' =
          (let f = (if (k', n') \<in> set (nodeMap s)
                    then nodeFreq s n' + (if k' = k then 1 else 0) else 1)
           in if maxAverageNum s' < curAverageNum s'
              then max 1 (f - int_div (maxAverageNum s') 2) else f)"
  proof (intro allI impI)
    fix k' n' assume a: "(k', n') \<in> set (nodeMap s')"
    then have nin: "n' \<in> snd ` set (nodeMap s3)"
      by (force simp: e')
    from a have "(k', n') \<in> set (nodeMap s1) \<or> (k' = k \<and> n' = n)"
      by (auto simp: e' nm3)
    then have "nodeFreq s3 n' =
        (if (k', n') \<in> set (nodeMap s) then nodeFreq s n' + (if k' = k then 1 else 0) else 1)"
    proof
      assume "(k', n') \<in> set (nodeMap s1)"
      from old [OF this] show ?thesis
        by (simp add: o3)
    next
      assume "k' = k \<and> n' = n"
      with new show ?thesis
        by (simp add: f3)
    qed
    with s4(5) nin have "nodeFreq s' n' =
        (let f = (if (k', n') \<in> set (nodeMap s)
                    then nodeFreq s n' + (if k' = k then 1 else 0) else 1)
           in if maxAverageNum s' < curAverageNum s'
              then max 1 (f - int_div (maxAverageNum s') 2) else f)"
      by (simp add: Let_def due e' f3)
    with inv0_linkedOnce [OF i' a]
    show "linkedOnce s' n' \<and>
        nodeFreq s' n' =
          (let f = (if (k', n') \<in> set (nodeMap s)
                    then nodeFreq s n' + (if k' = k then 1 else 0) else 1)
           in if maxAverageNum s' < curAverageNum s'
              then max 1 (f - int_div (maxAverageNum s') 2) else f)"
      by simp
  qed
  have ac: "accessed k s s'"
    unfolding accessed_def by (intro conjI av fr)
  have ot: "\<forall>k' n'. (k', n') \<in> set (nodeMap s') \<and> k' \<noteq> k \<longrightarrow>
              (k', n') \<in> set (nodeMap s) \<and> val (heap s' ! n') = val (heap s ! n')"
  proof (intro allI impI)
    fix k' n' assume "(k', n') \<in> set (nodeMap s') \<and> k' \<noteq> k"
    then have "(k', n') \<in> set (nodeMap s1)"
      by (auto simp: e' nm3)
    from old [OF this]
    show "(k', n') \<in> set (nodeMap s) \<and> val (heap s' ! n') = val (heap s ! n')"
      by (simp add: e' o3)
  qed
  have "nodeMap s' = AList.update k n (nodeMap s1)"
    by (simp add: e' nm3 update_absent [OF s1(3)])
  then have "map_of (nodeMap s') k = Some n" "val (heap s' ! n) = v"
    by (simp_all add: update_conv e'(3) f3)
  with p ac ot show ?thesis
    by (intro exI [of _ s'] exI [of _ n]) simp
qed

lemma put_accessed:
  assumes i: "inv s" and c: "capacity s \<noteq> 0"
  shows "\<exists>s' n. put k v s = Some s' \<and>
           map_of (nodeMap s') k = Some n \<and> val (heap s' ! n) = v \<and> accessed k s s' \<and>
           (\<forall>k' n'. (k', n') \<in> set (nodeMap s') \<and> k' \<noteq> k \<longrightarrow>
              (k', n') \<in> set (nodeMap s) \<and> val (heap s' ! n') = val (heap s ! n'))"
proof (cases "map_of (nodeMap s) k")
  case None
  from putInternal_accessed [OF i None c, of v] None c show ?thesis
    by (simp add: put_def)
next
  case (Some n)
  from put_present_accessed [OF i Some, of v] obtain s' where s':
    "put k v s = Some s'" "nodeMap s' = nodeMap s" "val (heap s' ! n) = v"
    "\<forall>m. m \<noteq> n \<longrightarrow> val (heap s' ! m) = val (heap s ! m)" "accessed k s s'"
    by blast
  from i have d: "distinct (map snd (nodeMap s))"
    by (simp add: inv_def inv0_def)
  from Some have kn: "(k, n) \<in> set (nodeMap s)"
    by (rule map_of_SomeD)
  have "\<forall>k' n'. (k', n') \<in> set (nodeMap s') \<and> k' \<noteq> k \<longrightarrow>
              (k', n') \<in> set (nodeMap s) \<and> val (heap s' ! n') = val (heap s ! n')"
  proof (intro allI impI)
    fix k' n' assume a: "(k', n') \<in> set (nodeMap s') \<and> k' \<noteq> k"
    then have b: "(k', n') \<in> set (nodeMap s)"
      by (simp add: s'(2))
    with a same_node_same_key [OF d kn] have "n' \<noteq> n"
      by blast
    with s'(4) b show "(k', n') \<in> set (nodeMap s) \<and> val (heap s' ! n') = val (heap s ! n')"
      by simp
  qed
  with s' Some show ?thesis
    by (intro exI [of _ s'] exI [of _ n]) simp
qed

lemma agedD:
  assumes "aged s s'"
  shows "nodeMap s' = nodeMap s"
    and "\<And>k n. (k, n) \<in> set (nodeMap s) \<Longrightarrow>
          nodeFreq s' n = max 1 (nodeFreq s n - int_div (maxAverageNum s) 2) \<and>
          val (heap s' ! n) = val (heap s ! n) \<and> linkedOnce s' n"
    and "\<And>k v0. map_option (\<lambda>(b, v, r). (b, v)) (get k v0 s') =
          map_option (\<lambda>(b, v, r). (b, v)) (get k v0 s)"
    and "\<And>k n. 1 \<le> maxAverageNum s \<Longrightarrow> (k, n) \<in> set (nodeMap s) \<Longrightarrow> nodeFreq s n = 1 \<Longrightarrow>
          minFreq s' = 1"
  using assms by (simp_all add: aged_def)

lemma accessedD:
  assumes "accessed k s s'"
  shows "curAverageNum s' = average (curTotalNum s') (length (nodeMap s'))"
    and "\<And>k' n. (k', n) \<in> set (nodeMap s') \<Longrightarrow>
          nodeFreq s' n =
            (let f = (if (k', n) \<in> set (nodeMap s)
                      then nodeFreq s n + (if k' = k then 1 else 0) else 1)
             in if maxAverageNum s' < curAverageNum s'
                then max 1 (f - int_div (maxAverageNum s') 2) else f)"
  using assms by (simp_all add: accessed_def)

text \<open>
  Claim C6. \<open>addFreqNum\<close>, which every insertion and every successful access ends with,
  runs the aging pass exactly when the recomputed average exceeds \<open>maxAverageNum_\<close>. On a
  well-formed state \<open>s0\<close> the pass returns (no missing list is dereferenced) in a state
  \<open>aged\<close> from \<open>s0\<close>: the index is kept, every live entry has its frequency lowered by
  \<open>maxAverageNum_ / 2\<close> but not below 1, keeps its value, has left its old list and is
  linked once in the list of its new frequency; every \<open>get\<close> returns what it returned
  before; an entry never accessed since its insertion stays in the list named by
  \<open>minFreq_\<close>. This holds for the walk in the order of the model and for the walk in any
  other order of the live nodes. In a state \<open>s\<close> reached by completed operations, a
  \<open>get\<close> of a present key and a \<open>put\<close> of any key return with the frequencies described
  by \<open>accessed\<close>: bumped or inserted, and lowered by the pass exactly when the running
  average they leave exceeds \<open>maxAverageNum_\<close>; the values of the other keys are kept.
\<close>

theorem aging_pass:
  assumes "inv0 s0" and "run xs (ILfuCache_new c m) = Some s"
  shows
    "addFreqNum s0 =
       (if agingDue s0
        then handleOverMaxAverageNum (recomputeAverage (s0\<lparr>curTotalNum := curTotalNum s0 + 1\<rparr>))
        else Some (recomputeAverage (s0\<lparr>curTotalNum := curTotalNum s0 + 1\<rparr>))) \<and>
     (\<exists>s'. handleOverMaxAverageNum s0 = Some s' \<and> aged s0 s') \<and>
     (\<forall>ns. distinct ns \<and> set ns = snd ` set (nodeMap s0) \<longrightarrow>
        (\<exists>s1. agingLoop ns s0 = Some s1 \<and> aged s0 (updateMinFreq s1))) \<and>
     (\<forall>k n v0. map_of (nodeMap s) k = Some n \<longrightarrow>
        (\<exists>s'. get k v0 s = Some (True, val (heap s ! n), s') \<and>
              nodeMap s' = nodeMap s \<and> maxAverageNum s' = m \<and>
              (\<forall>n'. val (heap s' ! n') = val (heap s ! n')) \<and>
              curTotalNum s' = curTotalNum s + 1 \<and> accessed k s s')) \<and>
     (\<forall>k v. c \<noteq> 0 \<longrightarrow>
        (\<exists>s' n. put k v s = Some s' \<and> maxAverageNum s' = m \<and>
              map_of (nodeMap s') k = Some n \<and> val (heap s' ! n) = v \<and> accessed k s s' \<and>
              (\<forall>k' n'. (k', n') \<in> set (nodeMap s') \<and> k' \<noteq> k \<longrightarrow>
                 (k', n') \<in> set (nodeMap s) \<and> val (heap s' ! n') = val (heap s ! n'))))"
proof (intro conjI)
  show "addFreqNum s0 =
       (if agingDue s0
        then handleOverMaxAverageNum (recomputeAverage (s0\<lparr>curTotalNum := curTotalNum s0 + 1\<rparr>))
        else Some (recomputeAverage (s0\<lparr>curTotalNum := curTotalNum s0 + 1\<rparr>)))"
    by (simp add: addFreqNum_def Let_def agingDue_def)
next
  show "\<exists>s'. handleOverMaxAverageNum s0 = Some s' \<and> aged s0 s'"
    by (rule handleOverMaxAverageNum_aged [OF assms(1)])
next
  show "\<forall>ns. distinct ns \<and> set ns = snd ` set (nodeMap s0) \<longrightarrow>
        (\<exists>s1. agingLoop ns s0 = Some s1 \<and> aged s0 (updateMinFreq s1))"
    using agingLoop_aged [OF assms(1)] by blast
next
  from run_new [OF assms(2)] have i: "inv s" and mx: "maxAverageNum s = m"
    by simp_all
  then have i0: "inv0 s"
    by (simp add: inv_def)
  show "\<forall>k n v0. map_of (nodeMap s) k = Some n \<longrightarrow>
        (\<exists>s'. get k v0 s = Some (True, val (heap s ! n), s') \<and>
              nodeMap s' = nodeMap s \<and> maxAverageNum s' = m \<and>
              (\<forall>n'. val (heap s' ! n') = val (heap s ! n')) \<and>
              curTotalNum s' = curTotalNum s + 1 \<and> accessed k s s')"
  proof (intro allI impI)
    fix k n v0 assume "map_of (nodeMap s) k = Some n"
    from get_accessed [OF i0 this, of v0] obtain s' where s':
      "get k v0 s = Some (True, val (heap s ! n), s')" "sameEntries s s'"
      "curTotalNum s' = curTotalNum s + 1" "accessed k s s'"
      by blast
    from s'(2) mx have "nodeMap s' = nodeMap s" "maxAverageNum s' = m"
      "\<forall>n'. val (heap s' ! n') = val (heap s ! n')"
      by (simp_all add: sameEntries_def)
    with s'(1,3,4)
    show "\<exists>s'. get k v0 s = Some (True, val (heap s ! n), s') \<and>
              nodeMap s' = nodeMap s \<and> maxAverageNum s' = m \<and>
              (\<forall>n'. val (heap s' ! n') = val (heap s ! n')) \<and>
              curTotalNum s' = curTotalNum s + 1 \<and> accessed k s s'"
      by (intro exI [of _ s']) simp
  qed
next
  from run_new [OF assms(2)] have i: "inv s" and mx: "maxAverageNum s = m"
    and cp: "capacity s = c"
    by simp_all
  show "\<forall>k v. c \<noteq> 0 \<longrightarrow>
        (\<exists>s' n. put k v s = Some s' \<and> maxAverageNum s' = m \<and>
              map_of (nodeMap s') k = Some n \<and> val (heap s' ! n) = v \<and> accessed k s s' \<and>
              (\<forall>k' n'. (k', n') \<in> set (nodeMap s') \<and> k' \<noteq> k \<longrightarrow>
                 (k', n') \<in> set (nodeMap s) \<and> val (heap s' ! n') = val (heap s ! n')))"
  proof (intro allI impI)
    fix k v assume "c \<noteq> 0"
    then have c: "capacity s \<noteq> 0"
      by (simp add: cp)
    from put_accessed [OF i c, of k v] obtain s' n where s':
      "put k v s = Some s'" "map_of (nodeMap s') k = Some n" "val (heap s' ! n) = v"
      "accessed k s s'"
      "\<forall>k' n'. (k', n') \<in> set (nodeMap s') \<and> k' \<noteq> k \<longrightarrow>
              (k', n') \<in> set (nodeMap s) \<and> val (heap s' ! n') = val (heap s ! n')"
      by blast
    from put_ok [OF i, of k v] s'(1) mx have "maxAverageNum s' = m"
      by auto
    with s'
    show "\<exists>s' n. put k v s = Some s' \<and> maxAverageNum s' = m \<and>
              map_of (nodeMap s') k = Some n \<and> val (heap s' ! n) = v \<and> accessed k s s' \<and>
              (\<forall>k' n'. (k', n') \<in> set (nodeMap s') \<and> k' \<noteq> k \<longrightarrow>
                 (k', n') \<in> set (nodeMap s) \<and> val (heap s' ! n') = val (heap s ! n'))"
      by (intro exI [of _ s'] exI [of _ n]) simp
  qed
qed

theorem aging_pass_witness:
  "addFreqNum cacheBeforeAging =
     handleOverMaxAverageNum (recomputeAverage (cacheBeforeAging\<lparr>curTotalNum := 6\<rparr>)) \<and>
   (\<exists>s'. handleOverMaxAverageNum cacheBeforeAging = Some s' \<and>
      nodeMap s' = [(1, 0), (2, 1)] \<and>
      nodeFreq s' 0 = 3 \<and> val (heap s' ! 0) = 10 \<and>
      nodeFreq s' 1 = 1 \<and> val (heap s' ! 1) = 20 \<and>
      map_option (\<lambda>(b, v, r). (b, v)) (get 1 0 s') = Some (True, 10) \<and>
      minFreq s' = 1) \<and>
   (\<exists>s1. agingLoop [0, 1] cacheBeforeAging = Some s1 \<and>
      nodeFreq (updateMinFreq s1) 0 = 3 \<and> nodeFreq (updateMinFreq s1) 1 = 1 \<and>
      minFreq (updateMinFreq s1) = 1) \<and>
   (\<exists>s'. get 1 0 cacheBeforeAging = Some (True, 10, s') \<and>
      curAverageNum s' = 3 \<and> maxAverageNum s' = 2 \<and>
      nodeFreq s' 0 = 4 \<and> nodeFreq s' 1 = 1) \<and>
   (\<exists>s' n. put 3 30 cacheBeforeAging = Some s' \<and>
      map_of (nodeMap s') 3 = Some n \<and> val (heap s' ! n) = 30)"
proof -
  have r: "run [Put 1 10, Put 2 20, Get 1 0, Get 1 0, Get 1 0] (ILfuCache_new 2 2) =
      Some cacheBeforeAging"
    by (rule run_examples)
  then have "inv cacheBeforeAging"
    by (rule run_new)
  then have i: "inv0 cacheBeforeAging"
    by (simp add: inv_def)
  have g: "map_option (\<lambda>(b, v, r). (b, v)) (get 1 0 cacheBeforeAging) = Some (True, 10)"
    by code_simp
  have f: "nodeMap cacheBeforeAging = [(1, 0), (2, 1)]" "maxAverageNum cacheBeforeAging = 2"
    "nodeFreq cacheBeforeAging 0 = 4" "nodeFreq cacheBeforeAging (Suc 0) = 1"
    "val (heap cacheBeforeAging ! 0) = 10" "val (heap cacheBeforeAging ! Suc 0) = 20"
    "curTotalNum cacheBeforeAging = 5" "agingDue cacheBeforeAging" "int_div 2 2 = 1"
    "average 6 (Suc (Suc 0)) = 3"
    by (simp_all add: cacheBeforeAging_def nodeFreq_def agingDue_def average_def to_int_def
        to_size_t_def int_div_def)
  note t = aging_pass [OF i r]
  note t1 = t [THEN conjunct1]
    and t2 = t [THEN conjunct2, THEN conjunct1]
    and t3 = t [THEN conjunct2, THEN conjunct2, THEN conjunct1]
    and t4 = t [THEN conjunct2, THEN conjunct2, THEN conjunct2, THEN conjunct1]
    and t5 = t [THEN conjunct2, THEN conjunct2, THEN conjunct2, THEN conjunct2]
  from t1 have a: "addFreqNum cacheBeforeAging =
     handleOverMaxAverageNum (recomputeAverage (cacheBeforeAging\<lparr>curTotalNum := 6\<rparr>))"
    by (simp add: f)
  from t2 obtain s' where s': "handleOverMaxAverageNum cacheBeforeAging = Some s'"
    "aged cacheBeforeAging s'"
    by blast
  have m1: "(1, 0) \<in> set (nodeMap cacheBeforeAging)" "(2, Suc 0) \<in> set (nodeMap cacheBeforeAging)"
    by (simp_all add: f)
  from agedD(1) [OF s'(2)] have p1: "nodeMap s' = [(1, 0), (2, 1)]"
    by (simp add: f)
  from agedD(2) [OF s'(2) m1(1)] agedD(2) [OF s'(2) m1(2)]
  have p2: "nodeFreq s' 0 = 3" "val (heap s' ! 0) = 10" "nodeFreq s' 1 = 1" "val (heap s' ! 1) = 20"
    by (simp_all add: f)
  from agedD(3) [OF s'(2), of 1 0] g
  have p3: "map_option (\<lambda>(b, v, r). (b, v)) (get 1 0 s') = Some (True, 10)"
    by simp
  have p4: "minFreq s' = 1"
    by (rule agedD(4) [OF s'(2) _ m1(2)]) (simp_all add: f)
  have b: "\<exists>s'. handleOverMaxAverageNum cacheBeforeAging = Some s' \<and>
      nodeMap s' = [(1, 0), (2, 1)] \<and>
      nodeFreq s' 0 = 3 \<and> val (heap s' ! 0) = 10 \<and>
      nodeFreq s' 1 = 1 \<and> val (heap s' ! 1) = 20 \<and>
      map_option (\<lambda>(b, v, r). (b, v)) (get 1 0 s') = Some (True, 10) \<and>
      minFreq s' = 1"
    using s'(1) p1 p2 p3 p4 by (intro exI [of _ s']) simp
  have "distinct [0, 1::nat] \<and> set [0, 1] = snd ` set (nodeMap cacheBeforeAging)"
    by (auto simp: f)
  with t3 [rule_format, of "[0, 1]"] obtain s1 where s1: "agingLoop [0, 1] cacheBeforeAging = Some s1"
    "aged cacheBeforeAging (updateMinFreq s1)"
    by blast
  from agedD(2) [OF s1(2) m1(1)] agedD(2) [OF s1(2) m1(2)]
  have q1: "nodeFreq (updateMinFreq s1) 0 = 3" "nodeFreq (updateMinFreq s1) 1 = 1"
    by (simp_all add: f)
  have q2: "minFreq (updateMinFreq s1) = 1"
    by (rule agedD(4) [OF s1(2) _ m1(2)]) (simp_all add: f)
  have c: "\<exists>s1. agingLoop [0, 1] cacheBeforeAging = Some s1 \<and>
      nodeFreq (updateMinFreq s1) 0 = 3 \<and> nodeFreq (updateMinFreq s1) 1 = 1 \<and>
      minFreq (updateMinFreq s1) = 1"
    using s1(1) q1 q2 by (intro exI [of _ s1]) simp
  have "map_of (nodeMap cacheBeforeAging) 1 = Some 0"
    by (simp add: f)
  with t4 [rule_format, of 1 0 0] obtain s2 where s2: "get 1 0 cacheBeforeAging = Some (True, val (heap cacheBeforeAging ! 0), s2)"
    "nodeMap s2 = nodeMap cacheBeforeAging" "maxAverageNum s2 = 2"
    "curTotalNum s2 = curTotalNum cacheBeforeAging + 1" "accessed 1 cacheBeforeAging s2"
    by blast
  from accessedD(1) [OF s2(5)] have av: "curAverageNum s2 = 3"
    by (simp add: s2(2,4) f)
  have m2: "(1, 0) \<in> set (nodeMap s2)" "(2, Suc 0) \<in> set (nodeMap s2)"
    by (simp_all add: s2(2) f)
  from accessedD(2) [OF s2(5) m2(1)] accessedD(2) [OF s2(5) m2(2)]
  have d1: "nodeFreq s2 0 = 4" "nodeFreq s2 1 = 1"
    by (simp_all add: s2(3) av f)
  have d: "\<exists>s'. get 1 0 cacheBeforeAging = Some (True, 10, s') \<and>
      curAverageNum s' = 3 \<and> maxAverageNum s' = 2 \<and>
      nodeFreq s' 0 = 4 \<and> nodeFreq s' 1 = 1"
    using s2(1,3) av d1 by (intro exI [of _ s2]) (simp add: f)
  have "(2::int) \<noteq> 0"
    by simp
  with t5 [rule_format, of 3 30] obtain s3 n where "put 3 30 cacheBeforeAging = Some s3"
    "map_of (nodeMap s3) 3 = Some n" "val (heap s3 ! n) = 30"
    by blast
  then have e: "\<exists>s' n. put 3 30 cacheBeforeAging = Some s' \<and>
      map_of (nodeMap s') 3 = Some n \<and> val (heap s' ! n) = 30"
    by blast
  from a b c d e show ?thesis
    by (intro conjI)
qed

section \<open>Purge\<close>

text \<open>
  Claim C7 (the code does not reset the bookkeeping). On a cache of capacity 2, \<open>put(1, 1)\<close>
  and \<open>purge()\<close> leave an empty index with the running total 1, the running average 1 and
  \<open>minFreq_ = 1\<close>, where a freshly constructed cache has 0, 0 and \<open>INT8_MAX\<close>: \<open>purge\<close>
  clears the two maps and nothing else.
\<close>

theorem purge_keeps_counters:
  "map_option (\<lambda>s. (nodeMap s, curTotalNum s, curAverageNum s, minFreq s))
     (run [Put 1 1, Purge] (ILfuCache_new 2 10 :: (nat, int) ILfuCache)) = Some ([], 1, 1, 1) \<and>
   (curTotalNum (ILfuCache_new 2 10 :: (nat, int) ILfuCache),
    curAverageNum (ILfuCache_new 2 10 :: (nat, int) ILfuCache),
    minFreq (ILfuCache_new 2 10 :: (nat, int) ILfuCache)) = (0, 0, 127)"
  by code_simp

section \<open>Eviction from an empty list\<close>

text \<open>
  Claim C8 (the case is reachable). On a cache of capacity 1 with \<open>maxAverageNum = 1\<close>,
  after \<open>put(1, 1)\<close> and 126 calls of \<open>get(1)\<close> the capacity is not 0, key 2 is absent and
  the index is at capacity, so \<open>put(2, v)\<close> calls \<open>kickOut\<close>; the list of frequency
  \<open>minFreq_\<close> is allocated and empty, and \<open>kickOut\<close> returns with the index unchanged.
\<close>

theorem kickOut_empty_list:
  "map_option
     (\<lambda>s. (capacity s \<noteq> 0, map_of (nodeMap s) 2, atCapacity s,
           map_of (freqToFreqList s) (minFreq s), map_option nodeMap (kickOut s)))
     (run (Put 1 1 # replicate 126 (Get 1 0)) (ILfuCache_new 1 1 :: (nat, int) ILfuCache)) =
   Some (True, None, True, Some [], Some [(1, 0)])"
  unfolding run_aged by code_simp

section \<open>Capacity 0\<close>

text \<open>
  Claim C9 (the convenience form does not return the default value for every type of
  value). A cache constructed with capacity 0 is in its initial state after every sequence
  of operations: every \<open>put\<close> returns the state unchanged, and every \<open>get(key, value)\<close>
  returns \<open>false\<close> and leaves \<open>value\<close> alone; no operation fails. The convenience form
  \<open>get(key)\<close> then returns its local \<open>Value value;\<close> as it was before the lookup: the
  default-constructed value for a class type, but whatever the uninitialised variable
  holds for a scalar type.
\<close>

theorem capacity_zero:
  "run xs (ILfuCache_new 0 m) = Some (ILfuCache_new 0 m) \<and>
   put k v (ILfuCache_new 0 m) = Some (ILfuCache_new 0 m) \<and>
   get k v0 (ILfuCache_new 0 m) = Some (False, v0, ILfuCache_new 0 m) \<and>
   get_value k u (ILfuCache_new 0 m) = Some (u, ILfuCache_new 0 m)"
proof -
  have "run xs (ILfuCache_new 0 m) = Some (ILfuCache_new 0 m)"
    by (induction xs) (simp_all add: step_new_0)
  then show ?thesis
    by (simp add: put_capacity_0 get_new get_value_def)
qed

section \<open>Put of a present key\<close>

text \<open>
  Claim C10, as stated, fails: on a cache of capacity 1 with \<open>maxAverageNum = 2\<close>, after
  \<open>put(1, 1)\<close> and \<open>put(1, 2)\<close> key 1 has frequency 2, and after a further \<open>put(1, 3)\<close> it
  still has frequency 2, not 3: the put raised the average to 3, and the aging pass took
  \<open>maxAverageNum_ / 2 = 1\<close> off again.
\<close>

theorem put_present_key_counterexample:
  "map_option (\<lambda>s. (map_of (nodeMap s) 1, nodeFreq s 0))
     (run [Put 1 1, Put 1 2] (ILfuCache_new 1 2 :: (nat, int) ILfuCache)) = Some (Some 0, 2) \<and>
   map_option (\<lambda>s. (map_of (nodeMap s) 1, nodeFreq s 0))
     (run [Put 1 1, Put 1 2, Put 1 3] (ILfuCache_new 1 2 :: (nat, int) ILfuCache)) = Some (Some 0, 2)"
  by code_simp

text \<open>
  Claim C10, amended. In every reachable state, \<open>put(k, v)\<close> of a key in the index returns
  with the same index (the same keys, the same number of entries: nothing is evicted, also
  at capacity) and with \<open>v\<close> as the value of \<open>k\<close>. The frequency of \<open>k\<close> is incremented by
  1; if that access raises the average above \<open>maxAverageNum_\<close>, the aging pass then lowers
  it by \<open>maxAverageNum_ / 2\<close>, but not below 1.
\<close>

theorem put_present_key:
  assumes "run xs (ILfuCache_new c m) = Some s" and "map_of (nodeMap s) k = Some n"
  shows "\<exists>s'. put k v s = Some s' \<and> nodeMap s' = nodeMap s \<and>
           map fst (nodeMap s') = map fst (nodeMap s) \<and>
           length (nodeMap s') = length (nodeMap s) \<and>
           val (heap s' ! n) = v \<and>
           nodeFreq s' n =
             (if agingDue s then max 1 (nodeFreq s n + 1 - int_div m 2) else nodeFreq s n + 1)"
proof -
  from run_new [OF assms(1)] have "inv s" "maxAverageNum s = m"
    by simp_all
  with put_present [OF this(1) assms(2), of v] show ?thesis
    by auto
qed

theorem put_present_key_witness:
  "\<exists>s'. put 1 3 cacheTwoPuts = Some s' \<and> nodeMap s' = [(1, 0)] \<and>
        val (heap s' ! 0) = 3 \<and> nodeFreq s' 0 = 2"
proof -
  have r: "run [Put 1 1, Put 1 2] (ILfuCache_new 1 2) = Some cacheTwoPuts"
    by (rule run_examples)
  have k: "map_of (nodeMap cacheTwoPuts) 1 = Some 0"
    by (simp add: cacheTwoPuts_def)
  have f: "nodeMap cacheTwoPuts = [(1, 0)]" "nodeFreq cacheTwoPuts 0 = 2" "agingDue cacheTwoPuts"
    "int_div 2 2 = 1"
    by (simp_all add: cacheTwoPuts_def nodeFreq_def agingDue_def average_def to_int_def
        to_size_t_def int_div_def)
  from put_present_key [OF r k, of 3] show ?thesis
    by (auto simp: f)
qed

end
